theory Spec2Isabelle
  imports Complex_Main "HOL-Library.Word"
begin

unbundle bit_operations_syntax

section \<open>Python values: errors, results, arrays\<close>

text \<open>
  The numerical code of the repository works on NumPy \<^verbatim>\<open>float64\<close> arrays.  The
  embedding reads every float as a real number: \<^verbatim>\<open>np.exp\<close>, \<^verbatim>\<open>np.sqrt\<close>,
  \<^verbatim>\<open>np.pi\<close> and \<^verbatim>\<open>np.e\<close> are \<^term>\<open>exp\<close>, \<^term>\<open>sqrt\<close>, \<^term>\<open>pi\<close>
  and \<^term>\<open>exp 1\<close>.  Rounding, overflow, infinities and NaN are outside the model.
  A raise of the source is the left injection of a sum type.
\<close>

datatype py_error = ValueError | IndexError | KeyError | OSError

definition bind_r :: "py_error + 'a \<Rightarrow> ('a \<Rightarrow> py_error + 'b) \<Rightarrow> py_error + 'b" where
  "bind_r m f = (case m of Inl e \<Rightarrow> Inl e | Inr x \<Rightarrow> f x)"

fun foldM :: "('s \<Rightarrow> 'a \<Rightarrow> py_error + 's) \<Rightarrow> 's \<Rightarrow> 'a list \<Rightarrow> py_error + 's" where
  "foldM f s [] = Inr s"
| "foldM f s (x # xs) = bind_r (f s x) (\<lambda>s'. foldM f s' xs)"

text \<open>
  A three-dimensional array as \<^verbatim>\<open>scipy.io.loadmat\<close> returns it: its shape and its
  elements in row-major order, so that \<^verbatim>\<open>a[r, c, i]\<close> is element
  \<open>(r * dim1 + c) * dim2 + i\<close>.  The shape is kept apart from the elements because
  an array with no rows still has a number of channels.
\<close>

record ndarray3 =
  dim0 :: nat
  dim1 :: nat
  dim2 :: nat
  flat :: "real list"

definition at3 :: "ndarray3 \<Rightarrow> nat \<Rightarrow> nat \<Rightarrow> nat \<Rightarrow> real" where
  "at3 m r c i = flat m ! ((r * dim1 m + c) * dim2 m + i)"

text \<open>\<^verbatim>\<open>input[:, :, i]\<close>, flattened: the elements of channel \<open>i\<close>.\<close>

definition channel_vals :: "ndarray3 \<Rightarrow> nat \<Rightarrow> real list" where
  "channel_vals m i = concat (map (\<lambda>r. map (\<lambda>c. at3 m r c i) [0..<dim1 m]) [0..<dim0 m])"

text \<open>
  \<^verbatim>\<open>np.max\<close> of an array: a \<^verbatim>\<open>ValueError\<close> on an array with no element, the largest
  element otherwise.
\<close>

definition np_max :: "real list \<Rightarrow> py_error + real" where
  "np_max xs = (case xs of [] \<Rightarrow> Inl ValueError | x # ys \<Rightarrow> Inr (foldl max x ys))"

text \<open>
  \<^verbatim>\<open>xs.reshape((n, m))\<close> of a flat array: row \<open>a\<close> is the elements
  \<open>a * m, ..., a * m + m - 1\<close> (C order); a \<^verbatim>\<open>ValueError\<close> when the sizes differ.
\<close>

definition reshape2 :: "nat \<Rightarrow> nat \<Rightarrow> 'a list \<Rightarrow> py_error + 'a list list" where
  "reshape2 n m xs =
     (if length xs = n * m then Inr (map (\<lambda>a. take m (drop (a * m) xs)) [0..<n])
      else Inl ValueError)"

text \<open>
  The working volume \<^verbatim>\<open>data\<close> is a nested list \<open>data ! a ! b ! i\<close>, as
  \<^verbatim>\<open>np.zeros((crop_size, crop_size, C))\<close> builds it.  \<open>get_chan\<close> is the slice
  \<^verbatim>\<open>data[:, :, i]\<close> and \<open>set_chan\<close> the assignment to it.
\<close>

definition zeros3 :: "nat \<Rightarrow> nat \<Rightarrow> nat \<Rightarrow> real list list list" where
  "zeros3 h w c = replicate h (replicate w (replicate c 0))"

definition get_chan :: "'a list list list \<Rightarrow> nat \<Rightarrow> 'a list list" where
  "get_chan d i = map (map (\<lambda>px. px ! i)) d"

definition set_chan :: "'a list list list \<Rightarrow> nat \<Rightarrow> 'a list list \<Rightarrow> 'a list list list" where
  "set_chan d i m = map2 (\<lambda>row mrow. map2 (\<lambda>px v. px[i := v]) row mrow) d m"

text \<open>\<^verbatim>\<open>np.maximum(x, m)\<close> of a float array and a \<^verbatim>\<open>uint8\<close> array: a float array.\<close>

definition maximum2 :: "real list list \<Rightarrow> 8 word list list \<Rightarrow> real list list" where
  "maximum2 x m = map2 (\<lambda>xr mr. map2 (\<lambda>v w. max v (real (unat w))) xr mr) x m"

text \<open>
  \<^verbatim>\<open>.astype(np.uint8)\<close> of a float: the fraction is dropped (towards zero) and the
  integer is read modulo 256.
\<close>

definition astype_uint8 :: "real \<Rightarrow> 8 word" where
  "astype_uint8 x = word_of_int (if 0 \<le> x then \<lfloor>x\<rfloor> else \<lceil>x\<rceil>)"

section \<open>The Gaussian likelihood surface (\<^verbatim>\<open>get_llkh\<close>)\<close>

type_synonym mat2 = "(real \<times> real) \<times> (real \<times> real)"

definition det2 :: "mat2 \<Rightarrow> real" where
  "det2 A = (case A of ((a, b), (c, d)) \<Rightarrow> a * d - b * c)"

text \<open>
  \<^verbatim>\<open>np.linalg.pinv\<close> of a 2 by 2 matrix, in exact arithmetic the Moore-Penrose
  inverse: the inverse of a regular matrix, the transpose over the squared Frobenius
  norm for a matrix of rank one, and zero for the zero matrix.
\<close>

definition pinv2 :: "mat2 \<Rightarrow> mat2" where
  "pinv2 A = (case A of ((a, b), (c, d)) \<Rightarrow>
     if det2 A \<noteq> 0 then ((d / det2 A, - b / det2 A), (- c / det2 A, a / det2 A))
     else if a = 0 \<and> b = 0 \<and> c = 0 \<and> d = 0 then ((0, 0), (0, 0))
     else (let n = a * a + b * b + c * c + d * d in ((a / n, c / n), (b / n, d / n))))"

text \<open>
  One row of \<^verbatim>\<open>np.sum((diff @ P * diff), axis=1)\<close>: the row vector \<open>diff\<close> times
  \<open>P\<close>, multiplied element by element with \<open>diff\<close>, summed.
\<close>

definition quad_form :: "mat2 \<Rightarrow> real \<times> real \<Rightarrow> real" where
  "quad_form P df = (case P of ((p00, p01), (p10, p11)) \<Rightarrow> case df of (dr, dc) \<Rightarrow>
     (dr * p00 + dc * p10) * dr + (dr * p01 + dc * p11) * dc)"

text \<open>The value of the surface at one grid point \<open>rc\<close>, before the reshape.\<close>

definition llkh_at :: "real \<times> real \<times> real \<times> real \<times> real \<Rightarrow> real \<times> real \<Rightarrow> real" where
  "llkh_at btemp rc = (case btemp of (b0, b1, b2, b3, b4) \<Rightarrow>
     let covrc = ((b2, b4), (b4, b3));
         diff = (fst rc - b0, snd rc - b1);
         expt = - 0.5 * quad_form (pinv2 covrc) diff;
         const = 1 / sqrt (det2 covrc * 2 * pi)
     in const * exp expt)"

definition get_llkh ::
  "(real \<times> real) list \<Rightarrow> real \<times> real \<times> real \<times> real \<times> real \<Rightarrow> nat \<Rightarrow> py_error + real list list" where
  "get_llkh allrc btemp crop_size = reshape2 crop_size crop_size (map (llkh_at btemp) allrc)"

text \<open>
  For comparison, the density the specification names: the probability density of the
  two-dimensional normal distribution with the given mean and covariance matrix,
  \<open>exp (- q / 2) / (2 * pi * sqrt (det cov))\<close> with \<open>q\<close> the quadratic form of the
  (pseudo-)inverse covariance at the offset from the mean.
\<close>

definition gaussian_pdf2 :: "real \<times> real \<Rightarrow> mat2 \<Rightarrow> real \<times> real \<Rightarrow> real" where
  "gaussian_pdf2 mean cov x =
     exp (- quad_form (pinv2 cov) (fst x - fst mean, snd x - snd mean) / 2) / (2 * pi * sqrt (det2 cov))"

section \<open>The label synthesizer (\<^verbatim>\<open>gaussians\<close>)\<close>

text \<open>
  A row of the keypoints table (\<^verbatim>\<open>np.loadtxt\<close> of \<^verbatim>\<open>keypoints.txt\<close>, five float
  columns): \<open>col0\<close> the image id, \<open>col1\<close> the bounding-box id, \<open>col2\<close> the 1-based
  channel index, \<open>col3\<close> and \<open>col4\<close> the two coordinates the source calls
  \<open>r\<close> and \<open>c\<close> (\<^verbatim>\<open>meanrc\<close>).
\<close>

record keypoint =
  col0 :: real
  col1 :: real
  col2 :: real
  col3 :: real
  col4 :: real

definition crop_size :: nat where
  "crop_size = 321"

definition gaussian_size :: real where
  "gaussian_size = 50"

text \<open>
  The grid: \<^verbatim>\<open>crop_range\<close> is \<open>1, ..., cs\<close>; \<^verbatim>\<open>allr\<close> tiles it \<open>cs\<close> times in a
  row, \<^verbatim>\<open>allc\<close> repeats each of its elements \<open>cs\<close> times; \<^verbatim>\<open>allrc\<close> pairs them.
\<close>

definition crop_range :: "nat \<Rightarrow> real list" where
  "crop_range cs = map real [1..<cs + 1]"

definition allr :: "nat \<Rightarrow> real list" where
  "allr cs = concat (replicate cs (crop_range cs))"

definition allc :: "nat \<Rightarrow> real list" where
  "allc cs = concat (map (replicate cs) (crop_range cs))"

definition allrc :: "nat \<Rightarrow> (real \<times> real) list" where
  "allrc cs = zip (allr cs) (allc cs)"

text \<open>
  Lines 42 to 44: the surface of one keypoint row, binarised at its maximum over
  \<^verbatim>\<open>np.e\<close> and cast to \<^verbatim>\<open>uint8\<close>.
\<close>

definition blob_mask :: "nat \<Rightarrow> keypoint \<Rightarrow> py_error + 8 word list list" where
  "blob_mask cs y =
     bind_r (get_llkh (allrc cs) (col3 y, col4 y, gaussian_size ^ 2, gaussian_size ^ 2, 0) cs)
       (\<lambda>llkh. bind_r (np_max (concat llkh))
         (\<lambda>mx. Inr (map (map (\<lambda>v. if v > mx / exp 1 then 1 else 0)) llkh)))"

text \<open>Line 45: one keypoint row merged into channel \<open>i\<close> of \<^verbatim>\<open>data\<close>.\<close>

definition add_blob :: "nat \<Rightarrow> nat \<Rightarrow> real list list list \<Rightarrow> keypoint \<Rightarrow> py_error + real list list list" where
  "add_blob cs i d y =
     bind_r (blob_mask cs y) (\<lambda>m. Inr (set_chan d i (maximum2 (get_chan d i) m)))"

text \<open>Lines 37 to 39: the rows of this sample and channel, in table order.\<close>

definition select_rows :: "keypoint list \<Rightarrow> int \<Rightarrow> int \<Rightarrow> nat \<Rightarrow> keypoint list" where
  "select_rows keypoints image_id bb_id i =
     filter (\<lambda>y. col2 y = real (i + 1))
       (filter (\<lambda>y. col1 y = real_of_int bb_id)
         (filter (\<lambda>y. col0 y = real_of_int image_id) keypoints))"

text \<open>Lines 36 to 45: the body of the loop over the channels.\<close>

definition channel_step ::
  "nat \<Rightarrow> keypoint list \<Rightarrow> int \<Rightarrow> int \<Rightarrow> ndarray3 \<Rightarrow> real list list list \<Rightarrow> nat \<Rightarrow> py_error + real list list list" where
  "channel_step cs keypoints image_id bb_id inp d i =
     bind_r (np_max (channel_vals inp i))
       (\<lambda>mx. if mx > 0 then foldM (add_blob cs i) d (select_rows keypoints image_id bb_id i)
              else Inr d)"

text \<open>Lines 28 to 47: the volume, from the parsed ids and the loaded array.\<close>

definition synthesize :: "nat \<Rightarrow> keypoint list \<Rightarrow> int \<Rightarrow> int \<Rightarrow> ndarray3 \<Rightarrow> py_error + 8 word list list list" where
  "synthesize cs keypoints image_id bb_id inp =
     bind_r (foldM (channel_step cs keypoints image_id bb_id inp) (zeros3 cs cs (dim2 inp)) [0..<dim2 inp])
       (\<lambda>d. Inr (map (map (map astype_uint8)) d))"

section \<open>Files and the file name\<close>

text \<open>
  What a path can hold: a MATLAB file with its named variables, a pickled label volume,
  or anything else.  \<open>can_write\<close> says whether \<^verbatim>\<open>open(path, "wb")\<close> succeeds.
\<close>

datatype fobj = MatFile "(string \<times> ndarray3) list" | PklFile "8 word list list list" | OtherFile

record fsys =
  files :: "string \<Rightarrow> fobj option"
  can_write :: "string \<Rightarrow> bool"

text \<open>\<^verbatim>\<open>loadmat(file_path)["data"]\<close>.\<close>

definition loadmat_data :: "fsys \<Rightarrow> string \<Rightarrow> py_error + ndarray3" where
  "loadmat_data fs path =
     (case files fs path of
        None \<Rightarrow> Inl OSError
      | Some (MatFile vars) \<Rightarrow> (case map_of vars ''data'' of None \<Rightarrow> Inl KeyError | Some a \<Rightarrow> Inr a)
      | Some _ \<Rightarrow> Inl ValueError)"

text \<open>\<^verbatim>\<open>os.path.basename\<close>: what follows the last slash.\<close>

definition basename :: "string \<Rightarrow> string" where
  "basename p = rev (takeWhile (\<lambda>c. c \<noteq> CHR ''/'') (rev p))"

text \<open>\<^verbatim>\<open>s[i]\<close> of a string: a one-character string, or an \<^verbatim>\<open>IndexError\<close>.\<close>

definition str_index :: "string \<Rightarrow> nat \<Rightarrow> py_error + string" where
  "str_index s i = (if i < length s then Inr [s ! i] else Inl IndexError)"

text \<open>
  A Python \<^verbatim>\<open>str\<close> is the list of its code points; the type \<^typ>\<open>char\<close> holds the
  code points below 256, so a string here is a \<^verbatim>\<open>str\<close> of Latin-1 characters (code
  points beyond that are outside the type).

  \<^verbatim>\<open>int(s)\<close> of a string, base ten: white space around the literal is dropped, one
  sign may lead, and the digits may be separated by single underscores.  Anything
  else is a \<^verbatim>\<open>ValueError\<close>.  White space for \<^verbatim>\<open>int\<close> is the code points 9 to 13
  and 32, and, in a string that is not ASCII, the spaces beyond ASCII, which below
  256 are 133 and 160.  The separators 28 to 31 are not white space for \<^verbatim>\<open>int\<close>
  (code points below 127 are never translated), and no code point from 128 to 255 is
  a decimal digit.
\<close>

definition is_space :: "char \<Rightarrow> bool" where
  "is_space c = (let n = (of_char c :: nat) in (9 \<le> n \<and> n \<le> 13) \<or> n = 32 \<or> n = 133 \<or> n = 160)"

definition is_digit :: "char \<Rightarrow> bool" where
  "is_digit c = (let n = (of_char c :: nat) in 48 \<le> n \<and> n \<le> 57)"

definition digit_val :: "char \<Rightarrow> int" where
  "digit_val c = int (of_char c) - 48"

fun digits_from :: "int \<Rightarrow> bool \<Rightarrow> string \<Rightarrow> int option" where
  "digits_from acc us [] = (if us then None else Some acc)"
| "digits_from acc us (c # cs) =
     (if is_digit c then digits_from (10 * acc + digit_val c) False cs
      else if c = CHR ''_'' \<and> \<not> us then digits_from acc True cs
      else None)"

definition digits :: "string \<Rightarrow> int option" where
  "digits s = (case s of [] \<Rightarrow> None
     | c # cs \<Rightarrow> if is_digit c then digits_from (digit_val c) False cs else None)"

definition strip :: "string \<Rightarrow> string" where
  "strip s = rev (dropWhile is_space (rev (dropWhile is_space s)))"

definition py_int :: "string \<Rightarrow> py_error + int" where
  "py_int s =
     (let t = strip s;
          sgn = (case t of c # _ \<Rightarrow> if c = CHR ''-'' then - 1 else 1 | [] \<Rightarrow> 1);
          body = (case t of c # r \<Rightarrow> if c = CHR ''-'' \<or> c = CHR ''+'' then r else t | [] \<Rightarrow> t)
      in case digits body of None \<Rightarrow> Inl ValueError | Some v \<Rightarrow> Inr (sgn * v))"

text \<open>
  \<^verbatim>\<open>gaussians(keypoints, file_path, save_path)\<close>: the result of the call, and the
  files after it.  The ids are parsed first, then the array is loaded, then the volume
  is computed, and only then is \<^verbatim>\<open>save_path\<close> opened and written.
\<close>

definition gaussians :: "keypoint list \<Rightarrow> string \<Rightarrow> string \<Rightarrow> fsys \<Rightarrow> (py_error + unit) \<times> fsys" where
  "gaussians keypoints file_path save_path fs =
     (let file_name = basename file_path in
      case py_int (take 4 (drop 1 file_name)) of Inl e \<Rightarrow> (Inl e, fs) | Inr image_id \<Rightarrow>
      case bind_r (str_index file_name 6) py_int of Inl e \<Rightarrow> (Inl e, fs) | Inr bb_id \<Rightarrow>
      case loadmat_data fs file_path of Inl e \<Rightarrow> (Inl e, fs) | Inr inp \<Rightarrow>
      case synthesize crop_size keypoints image_id bb_id inp of Inl e \<Rightarrow> (Inl e, fs) | Inr d \<Rightarrow>
      if can_write fs save_path
      then (Inr (), fs\<lparr>files := fun_upd (files fs) save_path (Some (PklFile d))\<rparr>)
      else (Inl OSError, fs))"

text \<open>
  Observations the theorems are stated with.  \<open>tabulate2 h w g\<close> and
  \<open>tabulate3 h w c f\<close> are the arrays of shape \<open>(h, w)\<close> and \<open>(h, w, c)\<close> whose
  elements are given by a function of the indices; \<open>channel_positive inp i\<close> is the
  test of line 36 where it does not raise; \<open>mask_px cs y a b\<close> is element
  \<open>[a, b]\<close> of the binarised surface of keypoint row \<open>y\<close> (line 44); and
  \<open>written\<close> is the volume a successful call leaves at \<^verbatim>\<open>save_path\<close>.
\<close>

definition channel_positive :: "ndarray3 \<Rightarrow> nat \<Rightarrow> bool" where
  "channel_positive inp i = (case np_max (channel_vals inp i) of Inr mx \<Rightarrow> 0 < mx | Inl e \<Rightarrow> False)"

definition tabulate2 :: "nat \<Rightarrow> nat \<Rightarrow> (nat \<Rightarrow> nat \<Rightarrow> 'a) \<Rightarrow> 'a list list" where
  "tabulate2 h w g = map (\<lambda>a. map (\<lambda>b. g a b) [0..<w]) [0..<h]"

definition tabulate3 :: "nat \<Rightarrow> nat \<Rightarrow> nat \<Rightarrow> (nat \<Rightarrow> nat \<Rightarrow> nat \<Rightarrow> 'a) \<Rightarrow> 'a list list list" where
  "tabulate3 h w c f = map (\<lambda>a. map (\<lambda>b. map (\<lambda>k. f a b k) [0..<c]) [0..<w]) [0..<h]"

definition mask_px :: "nat \<Rightarrow> keypoint \<Rightarrow> nat \<Rightarrow> nat \<Rightarrow> 8 word" where
  "mask_px cs y a b = (case blob_mask cs y of Inr M \<Rightarrow> M ! a ! b | Inl e \<Rightarrow> 0)"

definition written :: "keypoint list \<Rightarrow> string \<Rightarrow> string \<Rightarrow> fsys \<Rightarrow> 8 word list list list option" where
  "written keypoints file_path save_path fs =
     (case gaussians keypoints file_path save_path fs of
        (Inr u, fs') \<Rightarrow> (case files fs' save_path of Some (PklFile v) \<Rightarrow> Some v | _ \<Rightarrow> None)
      | (Inl e, fs') \<Rightarrow> None)"

text \<open>
  Connectedness of a set of pixels \<open>on\<close>: \<open>linked on p q\<close> when a path of \<open>on\<close>
  pixels leads from \<open>p\<close> to \<open>q\<close>, each step to one of the four neighbours.
\<close>

inductive linked :: "(nat \<Rightarrow> nat \<Rightarrow> bool) \<Rightarrow> nat \<times> nat \<Rightarrow> nat \<times> nat \<Rightarrow> bool"
  for on :: "nat \<Rightarrow> nat \<Rightarrow> bool" where
  start: "on a b \<Longrightarrow> linked on (a, b) (a, b)"
| step: "linked on p (a, b) \<Longrightarrow> on a' b' \<Longrightarrow>
         (a' = a \<and> (b' = b + 1 \<or> b = b' + 1)) \<or> (b' = b \<and> (a' = a + 1 \<or> a = a' + 1)) \<Longrightarrow>
         linked on p (a', b')"

text \<open>
  A small sample the general theorems are instantiated at: the file name of image 1,
  bounding box 1, a reference array of shape \<open>(1, 2, 2)\<close> whose channel 0 is positive
  and whose channel 1 is zero, and a table with one row for channel 1 of this sample,
  one for another image, and one whose channel index 7 names no channel.
\<close>

definition sample_path :: string where
  "sample_path = ''/cad/segmentation_mat/10001_1_binary_multilabel.mat''"

definition sample_array :: ndarray3 where
  "sample_array = \<lparr>dim0 = 1, dim1 = 2, dim2 = 2, flat = [0, 0, 1, 0]\<rparr>"

definition sample_fs :: fsys where
  "sample_fs = \<lparr>files = (\<lambda>p. if p = sample_path then Some (MatFile [(''data'', sample_array)]) else None),
                can_write = (\<lambda>p. True)\<rparr>"

definition sample_keypoints :: "keypoint list" where
  "sample_keypoints =
     [\<lparr>col0 = 1, col1 = 1, col2 = 1, col3 = 100, col4 = 200\<rparr>,
      \<lparr>col0 = 2, col1 = 1, col2 = 1, col3 = 30, col4 = 40\<rparr>,
      \<lparr>col0 = 1, col1 = 1, col2 = 7, col3 = 10, col4 = 10\<rparr>]"

section \<open>The weighted loss of a training step (\<^verbatim>\<open>CerberusMultiHeadTrain.train\<close>)\<close>

text \<open>
  Lines 299 to 315 of \<^verbatim>\<open>main.py\<close>.  The network and the criterion are parameters:
  \<open>model inp task_i\<close> is the list of head outputs, \<open>criterion out tgt\<close> the loss of
  one head.  \<^verbatim>\<open>sum\<close> adds from the left, starting at zero; an index out of range is
  an \<^verbatim>\<open>IndexError\<close>.
\<close>

definition py_index :: "'a list \<Rightarrow> nat \<Rightarrow> py_error + 'a" where
  "py_index xs i = (if i < length xs then Inr (xs ! i) else Inl IndexError)"

definition py_sum :: "real list \<Rightarrow> real" where
  "py_sum xs = foldl (+) 0 xs"

fun mapM :: "('a \<Rightarrow> py_error + 'b) \<Rightarrow> 'a list \<Rightarrow> py_error + 'b list" where
  "mapM f [] = Inr []"
| "mapM f (x # xs) = bind_r (f x) (\<lambda>y. bind_r (mapM f xs) (\<lambda>ys. Inr (y # ys)))"

definition head_losses :: "('o \<Rightarrow> 't \<Rightarrow> real) \<Rightarrow> 'o list \<Rightarrow> 't list \<Rightarrow> py_error + real list" where
  "head_losses criterion output target =
     mapM (\<lambda>idx. bind_r (py_index target idx) (\<lambda>t. Inr (criterion (output ! idx) t))) [0..<length output]"

definition task_losses ::
  "('i \<Rightarrow> nat \<Rightarrow> 'o list) \<Rightarrow> ('o \<Rightarrow> 't \<Rightarrow> real) \<Rightarrow> ('i \<times> 't list) list \<Rightarrow> py_error + real list" where
  "task_losses model criterion task_data_pair =
     mapM (\<lambda>(task_i, (inp, target)).
             bind_r (head_losses criterion (model inp task_i) target) (\<lambda>loss. Inr (py_sum loss)))
          (enumerate 0 task_data_pair)"

definition combined_loss ::
  "('i \<Rightarrow> nat \<Rightarrow> 'o list) \<Rightarrow> ('o \<Rightarrow> 't \<Rightarrow> real) \<Rightarrow> nat \<Rightarrow> real list \<Rightarrow> ('i \<times> 't list) list \<Rightarrow> py_error + real" where
  "combined_loss model criterion n_tasks sol task_data_pair =
     bind_r (task_losses model criterion task_data_pair)
       (\<lambda>task_loss.
          bind_r (mapM (\<lambda>i. bind_r (py_index sol i) (\<lambda>s. bind_r (py_index task_loss i) (\<lambda>l. Inr (s * l))))
                       [0..<n_tasks])
            (\<lambda>loss. Inr (py_sum loss)))"

section \<open>The min-norm solver (\<^verbatim>\<open>MinNormSolver.find_min_norm_element\<close>)\<close>

text \<open>
  Modelled from the spec: \<^verbatim>\<open>main.py\<close> imports \<^verbatim>\<open>MinNormSolver\<close> from the module
  \<^verbatim>\<open>utils\<close>, which is not among the sources; only the call of line 297 is.  The
  definitions of this section follow section 4.2 of the specification, with real
  numbers for floats.  A tensor is its shape and its elements, flattened; a gradient
  list has one list of tensors per task.
\<close>

record tensor =
  dims :: "nat list"
  elems :: "real list"

text \<open>
  Modelled from the spec: the dot product of two flattened gradients, the sum of the
  element-wise products across all positional tensors (step 1).
\<close>

definition dot_flat :: "real list \<Rightarrow> real list \<Rightarrow> real" where
  "dot_flat xs ys = sum_list (map2 (*) xs ys)"

text \<open>Modelled from the spec: the dot product of the gradients of two tasks, over all their tensors.\<close>

definition dot_task :: "tensor list \<Rightarrow> tensor list \<Rightarrow> real" where
  "dot_task g h = sum_list (map2 (\<lambda>a b. dot_flat (elems a) (elems b)) g h)"

text \<open>
  Modelled from the spec: the invariant of a gradient list, checked before any dot
  product (section 7): every task has as many tensors as the first, of the same shapes
  position by position.
\<close>

definition shapes_match :: "tensor list list \<Rightarrow> bool" where
  "shapes_match gs = (case gs of [] \<Rightarrow> True | g # rest \<Rightarrow> list_all (\<lambda>h. map dims h = map dims g) rest)"

text \<open>
  Modelled from the spec: the Gram matrix; entry \<open>(i, j)\<close> is computed from the pair
  with the smaller index first (only \<open>i \<le> j\<close> is computed, the matrix is symmetric).
\<close>

definition gram :: "tensor list list \<Rightarrow> real list list" where
  "gram gs = map (\<lambda>i. map (\<lambda>j. dot_task (gs ! min i j) (gs ! max i j)) [0..<length gs]) [0..<length gs]"

text \<open>
  Modelled from the spec: the two-point closed form.  For the squared norms \<open>v11\<close>,
  \<open>v22\<close> of two points and their product \<open>v12\<close>, the weight of the first point at the
  minimum-norm point of the segment, \<open>(v22 - v12) / (v11 + v22 - 2 * v12)\<close> clipped to
  \<open>[0, 1]\<close>, with the equal split for a zero denominator (step 4), and the squared
  norm there.
\<close>

definition min_norm_2 :: "real \<Rightarrow> real \<Rightarrow> real \<Rightarrow> real \<times> real" where
  "min_norm_2 v11 v12 v22 =
     (let den = v11 + v22 - 2 * v12;
          w = (if den = 0 then 1 / 2 else max 0 (min 1 ((v22 - v12) / den)))
      in (w, w * w * v11 + 2 * w * (1 - w) * v12 + (1 - w) * (1 - w) * v22))"

text \<open>Modelled from the spec: the one-hot vector at \<open>t\<close>, of length \<open>k\<close>.\<close>

definition one_hot :: "nat \<Rightarrow> nat \<Rightarrow> real list" where
  "one_hot k t = map (\<lambda>i. if i = t then 1 else 0) [0..<k]"

text \<open>Modelled from the spec: the pairs \<open>(i, j)\<close> of tasks with \<open>i < j\<close>.\<close>

definition pairs :: "nat \<Rightarrow> (nat \<times> nat) list" where
  "pairs k = concat (map (\<lambda>i. map (\<lambda>j. (i, j)) [i + 1..<k]) [0..<k])"

text \<open>
  Modelled from the spec: the initial weights (step 2).  Among all pairs the one whose
  segment has the minimum-norm point of least norm is taken, the first such; the
  weights are that pair's split, which is a one-hot vector when the minimum is at an
  end of the segment.
\<close>

definition candidate :: "real list list \<Rightarrow> nat \<times> nat \<Rightarrow> (real \<times> real) \<times> nat \<times> nat" where
  "candidate G p = (case p of (i, j) \<Rightarrow> (min_norm_2 (G ! i ! i) (G ! i ! j) (G ! j ! j), i, j))"

text \<open>Modelled from the spec: the weights of the best pair, zero for every other task.\<close>

definition init_weights :: "real list list \<Rightarrow> nat \<Rightarrow> real list" where
  "init_weights G k =
     (case pairs k of
        [] \<Rightarrow> one_hot k 0
      | p # ps \<Rightarrow>
          (case foldl (\<lambda>best q. if snd (fst (candidate G q)) < snd (fst best) then candidate G q else best)
                  (candidate G p) ps of
             ((w, cost), i, j) \<Rightarrow> map (\<lambda>t. if t = i then w else if t = j then 1 - w else 0) [0..<k]))"

text \<open>Modelled from the spec: the index of the least element, the first such.\<close>

fun argmin_from :: "nat \<Rightarrow> real \<Rightarrow> nat \<Rightarrow> real list \<Rightarrow> nat" where
  "argmin_from best bv i [] = best"
| "argmin_from best bv i (x # xs) =
     (if x < bv then argmin_from i x (i + 1) xs else argmin_from best bv (i + 1) xs)"

text \<open>Modelled from the spec: the first index of the least element of a list.\<close>

definition argmin :: "real list \<Rightarrow> nat" where
  "argmin xs = (case xs of [] \<Rightarrow> 0 | x # r \<Rightarrow> argmin_from 0 x 1 r)"

text \<open>
  Modelled from the spec: the Frank-Wolfe refinement (step 3), with the iteration cap
  as fuel and the tolerance \<open>stop_crit\<close>.  \<open>t\<close> minimises the directional derivative \<open>G w\<close>; the step size towards
  the vertex \<open>t\<close> is one minus the weight the two-point form gives the current point;
  below the tolerance the current weights are returned, otherwise the weights become
  the convex combination of the current weights and the vertex.
\<close>

definition stop_crit :: real where
  "stop_crit = 1 / 100000"

text \<open>Modelled from the spec: the fixed maximum iteration count.\<close>

definition max_iter :: nat where
  "max_iter = 250"

text \<open>Modelled from the spec: the iteration itself, \<open>n\<close> steps at most.\<close>

fun fw_iter :: "nat \<Rightarrow> real list list \<Rightarrow> real list \<Rightarrow> real list" where
  "fw_iter 0 G w = w"
| "fw_iter (Suc n) G w =
     (let Gw = map (\<lambda>row. dot_flat row w) G;
          t = argmin Gw;
          c = fst (min_norm_2 (dot_flat w Gw) (Gw ! t) (G ! t ! t));
          gamma = 1 - c
      in if gamma < stop_crit then w
         else fw_iter n G (map2 (\<lambda>wk ek. c * wk + gamma * ek) w (one_hot (length w) t)))"

text \<open>
  Modelled from the spec: \<^verbatim>\<open>find_min_norm_element\<close>.  A shape mismatch is an error;
  a single task gets the weight 1 without any iteration; the result is the pair of
  the weights and the Gram values.
\<close>

definition find_min_norm_element :: "tensor list list \<Rightarrow> py_error + real list \<times> real list list" where
  "find_min_norm_element gs =
     (if \<not> shapes_match gs then Inl ValueError
      else let G = gram gs; k = length gs
           in if k \<le> 1 then Inr (one_hot k 0, G)
              else Inr (fw_iter max_iter G (init_weights G k), G))"

text \<open>
  Modelled from the spec: what the output contract asks of the weights, a sequence of
  \<open>k\<close> non-negative scalars that sum to 1.
\<close>

definition simplex :: "nat \<Rightarrow> real list \<Rightarrow> bool" where
  "simplex k w = (length w = k \<and> list_all (\<lambda>x. 0 \<le> x) w \<and> sum_list w = 1)"

section \<open>Theorems\<close>

lemma bind_r_Inr [simp]: "bind_r (Inr x) f = f x"
  by (simp add: bind_r_def)

lemma bind_r_Inl [simp]: "bind_r (Inl e) f = Inl e"
  by (simp add: bind_r_def)

lemma length_concat_replicate: "length (concat (replicate n xs)) = n * length xs"
  by (induction n) auto

lemma nth_concat_replicate:
  "k < n * length xs \<Longrightarrow> concat (replicate n xs) ! k = xs ! (k mod length xs)"
proof (induction n arbitrary: k)
  case 0 then show ?case by simp
next
  case (Suc n)
  show ?case
  proof (cases "k < length xs")
    case True then show ?thesis by (simp add: nth_append)
  next
    case False
    then have "k - length xs < n * length xs" using Suc.prems by simp
    from Suc.IH[OF this] False show ?thesis
      using le_mod_geq[of "length xs" k] by (simp add: nth_append)
  qed
qed

lemma length_concat_map_replicate: "length (concat (map (replicate m) xs)) = length xs * m"
  by (induction xs) auto

lemma nth_concat_map_replicate:
  "k < length xs * m \<Longrightarrow> concat (map (replicate m) xs) ! k = xs ! (k div m)"
proof (induction xs arbitrary: k)
  case Nil then show ?case by simp
next
  case (Cons x xs)
  show ?case
  proof (cases "k < m")
    case True then show ?thesis by (simp add: nth_append)
  next
    case False
    then have "k - m < length xs * m" using Cons.prems by simp
    moreover have "k div m = Suc ((k - m) div m)"
      using False Cons.prems by (metis div_if less_nat_zero_code mult_is_0 not_gr_zero)
    ultimately show ?thesis using Cons.IH[of "k - m"] False
      by (simp add: nth_append)
  qed
qed

lemma length_crop_range [simp]: "length (crop_range cs) = cs"
  by (simp add: crop_range_def)

lemma nth_crop_range: "k < cs \<Longrightarrow> crop_range cs ! k = real (k + 1)"
  unfolding crop_range_def by (simp add: nth_map_upt del: upt_Suc)

lemma length_allrc [simp]: "length (allrc cs) = cs * cs"
  by (simp add: allrc_def allr_def allc_def length_concat_replicate length_concat_map_replicate)

lemma nth_allrc:
  assumes "k < cs * cs"
  shows "allrc cs ! k = (real (k mod cs + 1), real (k div cs + 1))"
proof -
  have cs: "0 < cs" using assms by (cases cs) auto
  have "k mod cs < cs" using cs by simp
  moreover have "k div cs < cs" using assms by (simp add: less_mult_imp_div_less)
  ultimately show ?thesis using assms
    by (simp add: allrc_def allr_def allc_def length_concat_replicate
        length_concat_map_replicate nth_concat_replicate nth_concat_map_replicate nth_crop_range)
qed

lemma reshape2_nth:
  assumes "length xs = n * m" "a < n" "b < m"
  shows "\<exists>L. reshape2 n m xs = Inr L \<and> length L = n \<and> length (L ! a) = m \<and> L ! a ! b = xs ! (a * m + b)"
proof -
  have "a * m + m \<le> n * m"
  proof -
    have "Suc a \<le> n" using assms(2) by simp
    then have "Suc a * m \<le> n * m" by (rule mult_le_mono1)
    then show ?thesis by (simp add: add.commute)
  qed
  then have "n * m - a * m \<ge> m" by simp
  then show ?thesis using assms by (simp add: reshape2_def min_def add.commute)
qed

lemma get_llkh_grid:
  "get_llkh (allrc cs) bt cs =
     Inr (map (\<lambda>a. map (\<lambda>b. llkh_at bt (real (b + 1), real (a + 1))) [0..<cs]) [0..<cs])"
proof -
  have row: "take cs (drop (a * cs) (map (llkh_at bt) (allrc cs))) =
      map (\<lambda>b. llkh_at bt (real (b + 1), real (a + 1))) [0..<cs]" if a: "a < cs" for a
  proof (rule nth_equalityI)
    have "Suc a \<le> cs" using a by simp
    then have "Suc a * cs \<le> cs * cs" by (rule mult_le_mono1)
    then have le: "a * cs + cs \<le> cs * cs" by (simp add: add.commute)
    then show len: "length (take cs (drop (a * cs) (map (llkh_at bt) (allrc cs)))) =
        length (map (\<lambda>b. llkh_at bt (real (b + 1), real (a + 1))) [0..<cs])"
      by simp
    fix b assume "b < length (take cs (drop (a * cs) (map (llkh_at bt) (allrc cs))))"
    then have b: "b < cs" using len by simp
    then have k: "a * cs + b < cs * cs" using le by simp
    have md: "(a * cs + b) mod cs = b" "(a * cs + b) div cs = a" using b by simp_all
    have "take cs (drop (a * cs) (map (llkh_at bt) (allrc cs))) ! b =
        map (llkh_at bt) (allrc cs) ! (a * cs + b)"
    proof -
      have "a * cs \<le> cs * cs" using a by simp
      then have "a * cs \<le> length (map (llkh_at bt) (allrc cs))" by simp
      from nth_drop[OF this, of b] show ?thesis using b by (simp del: drop_map)
    qed
    also have "\<dots> = llkh_at bt (allrc cs ! (a * cs + b))" using k by simp
    also have "\<dots> = llkh_at bt (real (b + 1), real (a + 1))"
      using nth_allrc[OF k] md by simp
    finally show "take cs (drop (a * cs) (map (llkh_at bt) (allrc cs))) ! b =
        map (\<lambda>b. llkh_at bt (real (b + 1), real (a + 1))) [0..<cs] ! b"
      using b by simp
  qed
  show ?thesis
    unfolding get_llkh_def reshape2_def using row by simp
qed

lemma np_max_Max: "xs \<noteq> [] \<Longrightarrow> np_max xs = Inr (Max (set xs))"
proof (cases xs)
  case Nil then show "xs \<noteq> [] \<Longrightarrow> ?thesis" by simp
next
  case (Cons x ys)
  have "foldl max x ys = fold max ys x"
    by (simp add: foldl_conv_fold max.commute)
  moreover have "Max (set (x # ys)) = fold max ys x" by (rule Max.set_eq_fold)
  ultimately have "foldl max x ys = Max (set xs)" using Cons by simp
  then show ?thesis using Cons by (simp add: np_max_def)
qed

lemma np_max_empty: "np_max [] = Inl ValueError"
  by (simp add: np_max_def)

lemma concat_grid_nonempty:
  "0 < cs \<Longrightarrow> concat (map (\<lambda>a. map (f a) [0..<cs]) [0..<cs]) \<noteq> []"
  by (cases cs) (auto simp del: upt_Suc simp: upt_conv_Cons)

lemma set_concat_grid:
  "set (concat (map (\<lambda>a. map (f a) [0..<cs]) [0..<cs])) = {f a b | a b. a < cs \<and> b < cs}"
  by auto blast

lemma blob_mask_grid:
  assumes "0 < cs"
  shows "blob_mask cs y =
     Inr (map (\<lambda>a. map (\<lambda>b.
            if llkh_at (col3 y, col4 y, gaussian_size ^ 2, gaussian_size ^ 2, 0) (real (b + 1), real (a + 1))
               > Max {llkh_at (col3 y, col4 y, gaussian_size ^ 2, gaussian_size ^ 2, 0) (real (b + 1), real (a + 1)) | a b. a < cs \<and> b < cs} / exp 1
            then 1 else 0) [0..<cs]) [0..<cs])"
proof -
  define f where "f = (\<lambda>a b. llkh_at (col3 y, col4 y, gaussian_size ^ 2, gaussian_size ^ 2, 0)
      (real (b + 1), real (a + 1)))"
  define L where "L = map (\<lambda>a. map (f a) [0..<cs]) [0..<cs]"
  define mx where "mx = Max {f a b | a b. a < cs \<and> b < cs}"
  have g: "get_llkh (allrc cs) (col3 y, col4 y, gaussian_size ^ 2, gaussian_size ^ 2, 0) cs = Inr L"
    unfolding L_def f_def by (rule get_llkh_grid)
  have "concat L \<noteq> []" unfolding L_def by (rule concat_grid_nonempty[OF assms])
  then have "np_max (concat L) = Inr (Max (set (concat L)))" by (rule np_max_Max)
  moreover have "set (concat L) = {f a b | a b. a < cs \<and> b < cs}"
    unfolding L_def by (rule set_concat_grid)
  ultimately have m: "np_max (concat L) = Inr mx" by (simp add: mx_def)
  have "blob_mask cs y = Inr (map (map (\<lambda>v. if v > mx / exp 1 then 1 else 0)) L)"
    unfolding blob_mask_def g using m by simp
  also have "map (map (\<lambda>v. if v > mx / exp 1 then 1 else 0)) L =
      map (\<lambda>a. map (\<lambda>b. if f a b > mx / exp 1 then 1 else 0) [0..<cs]) [0..<cs]"
    unfolding L_def by (simp add: comp_def)
  finally show ?thesis unfolding f_def mx_def .
qed

lemma blob_mask_zero_size: "blob_mask 0 y = Inl ValueError"
  unfolding blob_mask_def get_llkh_grid by (simp add: np_max_def)

lemma mask_px_grid:
  assumes "a < cs" "b < cs"
  shows "mask_px cs y a b =
     (if llkh_at (col3 y, col4 y, gaussian_size ^ 2, gaussian_size ^ 2, 0) (real (b + 1), real (a + 1))
         > Max {llkh_at (col3 y, col4 y, gaussian_size ^ 2, gaussian_size ^ 2, 0) (real (b + 1), real (a + 1)) | a b. a < cs \<and> b < cs} / exp 1
      then 1 else 0)"
proof -
  have "0 < cs" using assms by simp
  from blob_mask_grid[OF this] show ?thesis using assms
    by (simp add: mask_px_def del: upt_Suc of_nat_Suc of_nat_add)
qed

lemma blob_mask_px:
  assumes "0 < cs"
  shows "blob_mask cs y = Inr (map (\<lambda>a. map (\<lambda>b. mask_px cs y a b) [0..<cs]) [0..<cs])"
proof -
  have "map (\<lambda>a. map (\<lambda>b. mask_px cs y a b) [0..<cs]) [0..<cs] =
      map (\<lambda>a. map (\<lambda>b.
            if llkh_at (col3 y, col4 y, gaussian_size ^ 2, gaussian_size ^ 2, 0) (real (b + 1), real (a + 1))
               > Max {llkh_at (col3 y, col4 y, gaussian_size ^ 2, gaussian_size ^ 2, 0) (real (b + 1), real (a + 1)) | a b. a < cs \<and> b < cs} / exp 1
            then 1 else 0) [0..<cs]) [0..<cs]"
    by (rule map_cong[OF refl], rule map_cong[OF refl]) (simp add: mask_px_grid)
  then show ?thesis using blob_mask_grid[OF assms] by simp
qed

lemma mask_px_01: "mask_px cs y a b = 0 \<or> mask_px cs y a b = 1" if "a < cs" "b < cs"
  using that by (simp add: mask_px_grid)

lemma map2_map_same: "map2 f (map g xs) (map h xs) = map (\<lambda>x. f (g x) (h x)) xs"
  by (induction xs) auto

lemma zeros3_tab: "zeros3 h w c = tabulate3 h w c (\<lambda>a b k. 0)"
  by (simp add: zeros3_def tabulate3_def map_replicate_const)

lemma get_chan_tab:
  "i < c \<Longrightarrow> get_chan (tabulate3 h w c f) i = tabulate2 h w (\<lambda>a b. f a b i)"
  by (simp add: get_chan_def tabulate3_def tabulate2_def comp_def)

lemma maximum2_tab:
  "maximum2 (tabulate2 h w g) (tabulate2 h w m) = tabulate2 h w (\<lambda>a b. max (g a b) (real (unat (m a b))))"
  by (simp add: maximum2_def tabulate2_def map2_map_same)

lemma upd_tab:
  "i < c \<Longrightarrow> (map f [0..<c])[i := v] = map (\<lambda>k. if k = i then v else f k) [0..<c]"
  by (rule nth_equalityI) (auto simp: nth_list_update)

lemma set_chan_tab:
  "i < c \<Longrightarrow> set_chan (tabulate3 h w c f) i (tabulate2 h w g) =
     tabulate3 h w c (\<lambda>a b k. if k = i then g a b else f a b k)"
  by (simp add: set_chan_def tabulate3_def tabulate2_def map2_map_same upd_tab)

lemma blob_mask_tab: "0 < cs \<Longrightarrow> blob_mask cs y = Inr (tabulate2 cs cs (mask_px cs y))"
  by (simp add: blob_mask_px tabulate2_def)

lemma add_blob_tab:
  assumes "0 < cs" "i < c"
  shows "add_blob cs i (tabulate3 cs cs c f) y =
     Inr (tabulate3 cs cs c (\<lambda>a b k. if k = i then max (f a b i) (real (unat (mask_px cs y a b))) else f a b k))"
  using assms by (simp add: add_blob_def blob_mask_tab get_chan_tab maximum2_tab set_chan_tab del: of_nat_unat)

lemma foldM_add_blob_tab:
  assumes "0 < cs" "i < c"
  shows "foldM (add_blob cs i) (tabulate3 cs cs c f) ys =
     Inr (tabulate3 cs cs c (\<lambda>a b k.
        if k = i then foldl max (f a b i) (map (\<lambda>y. real (unat (mask_px cs y a b))) ys) else f a b k))"
proof (induction ys arbitrary: f)
  case Nil
  have "f = (\<lambda>a b k. if k = i then foldl max (f a b i) (map (\<lambda>y. real (unat (mask_px cs y a b))) []) else f a b k)"
    by (intro ext) simp
  then show ?case unfolding foldM.simps by (rule arg_cong)
next
  case (Cons y ys)
  show ?case
    unfolding foldM.simps add_blob_tab[OF assms] bind_r_Inr Cons.IH
    by (rule arg_cong[where f=Inr], rule arg_cong[where f="tabulate3 cs cs c"]) (intro ext, simp del: of_nat_unat)
qed

lemma foldM_cong:
  "(\<And>s x. x \<in> set xs \<Longrightarrow> f s x = g s x) \<Longrightarrow> foldM f s xs = foldM g s xs"
  by (induction xs arbitrary: s) auto

lemma tabulate3_cong:
  "(\<And>a b k. a < h \<Longrightarrow> b < w \<Longrightarrow> k < c \<Longrightarrow> f a b k = g a b k) \<Longrightarrow> tabulate3 h w c f = tabulate3 h w c g"
  by (simp add: tabulate3_def)

lemma tabulate3_nth:
  "a < h \<Longrightarrow> b < w \<Longrightarrow> k < c \<Longrightarrow> tabulate3 h w c f ! a ! b ! k = f a b k"
  by (simp add: tabulate3_def)

lemma tabulate3_shape:
  "length (tabulate3 h w c f) = h"
  "a < h \<Longrightarrow> length (tabulate3 h w c f ! a) = w"
  "a < h \<Longrightarrow> b < w \<Longrightarrow> length (tabulate3 h w c f ! a ! b) = c"
  by (simp_all add: tabulate3_def)

lemma channel_vals_empty: "channel_vals inp i = [] \<longleftrightarrow> dim0 inp = 0 \<or> dim1 inp = 0"
  by (cases "dim0 inp"; cases "dim1 inp") (auto simp: channel_vals_def upt_conv_Cons simp del: upt_Suc)

lemma channel_step_tab:
  assumes "0 < cs" "i < c" "0 < dim0 inp" "0 < dim1 inp"
  shows "channel_step cs kps img bb inp (tabulate3 cs cs c f) i =
     Inr (tabulate3 cs cs c (\<lambda>a b k.
        if k = i \<and> channel_positive inp i
        then foldl max (f a b i) (map (\<lambda>y. real (unat (mask_px cs y a b))) (select_rows kps img bb i))
        else f a b k))"
proof -
  have ne: "channel_vals inp i \<noteq> []" using assms by (simp add: channel_vals_empty)
  have m: "np_max (channel_vals inp i) = Inr (Max (set (channel_vals inp i)))"
    by (rule np_max_Max[OF ne])
  show ?thesis
  proof (cases "channel_positive inp i")
    case True
    then have "0 < Max (set (channel_vals inp i))" using m by (simp add: channel_positive_def)
    then show ?thesis unfolding channel_step_def m bind_r_Inr using True
      by (simp add: foldM_add_blob_tab[OF assms(1,2)] del: of_nat_unat)
  next
    case False
    then have "\<not> 0 < Max (set (channel_vals inp i))" using m by (simp add: channel_positive_def)
    then show ?thesis unfolding channel_step_def m bind_r_Inr using False by simp
  qed
qed

lemma foldM_channel_step_tab:
  assumes "0 < cs" "0 < dim0 inp" "0 < dim1 inp" "distinct js" "\<And>j. j \<in> set js \<Longrightarrow> j < c"
  shows "foldM (channel_step cs kps img bb inp) (tabulate3 cs cs c f) js =
     Inr (tabulate3 cs cs c (\<lambda>a b k.
        if k \<in> set js \<and> channel_positive inp k
        then foldl max (f a b k) (map (\<lambda>y. real (unat (mask_px cs y a b))) (select_rows kps img bb k))
        else f a b k))"
  using assms(4,5)
proof (induction js arbitrary: f)
  case Nil
  then show ?case by simp
next
  case (Cons j js)
  have j: "j < c" "j \<notin> set js" "distinct js" using Cons.prems by auto
  have rest: "\<And>k. k \<in> set js \<Longrightarrow> k < c" using Cons.prems by auto
  define f' where "f' = (\<lambda>a b k.
        if k = j \<and> channel_positive inp j
        then foldl max (f a b j) (map (\<lambda>y. real (unat (mask_px cs y a b))) (select_rows kps img bb j))
        else f a b k)"
  have "foldM (channel_step cs kps img bb inp) (tabulate3 cs cs c f) (j # js) =
      foldM (channel_step cs kps img bb inp) (tabulate3 cs cs c f') js"
    unfolding foldM.simps channel_step_tab[OF assms(1) j(1) assms(2,3)] bind_r_Inr f'_def ..
  also have "\<dots> = Inr (tabulate3 cs cs c (\<lambda>a b k.
        if k \<in> set js \<and> channel_positive inp k
        then foldl max (f' a b k) (map (\<lambda>y. real (unat (mask_px cs y a b))) (select_rows kps img bb k))
        else f' a b k))"
    by (rule Cons.IH[OF j(3) rest])
  also have "\<dots> = Inr (tabulate3 cs cs c (\<lambda>a b k.
        if k \<in> set (j # js) \<and> channel_positive inp k
        then foldl max (f a b k) (map (\<lambda>y. real (unat (mask_px cs y a b))) (select_rows kps img bb k))
        else f a b k))"
    by (rule arg_cong[where f=Inr], rule arg_cong[where f="tabulate3 cs cs c"])
       (intro ext, use j(2) in \<open>auto simp: f'_def simp del: of_nat_unat\<close>)
  finally show ?case .
qed

lemma foldl_max_01:
  fixes g :: "'a \<Rightarrow> real"
  assumes "\<And>y. y \<in> set ys \<Longrightarrow> g y = 0 \<or> g y = 1" "v = 0 \<or> v = 1"
  shows "foldl max v (map g ys) = (if v = 1 \<or> list_ex (\<lambda>y. g y = 1) ys then 1 else 0)"
  using assms
proof (induction ys arbitrary: v)
  case Nil
  then show ?case by auto
next
  case (Cons y ys)
  have gy: "g y = 0 \<or> g y = 1" using Cons.prems(1) by simp
  then have m: "max v (g y) = 0 \<or> max v (g y) = 1" using Cons.prems(2) by auto
  have "foldl max (max v (g y)) (map g ys) =
      (if max v (g y) = 1 \<or> list_ex (\<lambda>y. g y = 1) ys then 1 else 0)"
    by (rule Cons.IH[OF _ m]) (use Cons.prems(1) in simp)
  then show ?case using gy Cons.prems(2) by auto
qed

lemma astype_uint8_01 [simp]: "astype_uint8 0 = 0" "astype_uint8 1 = 1"
  by (simp_all add: astype_uint8_def)

lemma unat_mask_eq_1: "w = 0 \<or> w = 1 \<Longrightarrow> real (unat w) = 1 \<longleftrightarrow> w = (1 :: 8 word)"
  by auto

lemma synthesize_tab:
  assumes "0 < cs" "0 < dim0 inp" "0 < dim1 inp"
  shows "synthesize cs kps img bb inp =
     Inr (tabulate3 cs cs (dim2 inp) (\<lambda>a b k.
        if channel_positive inp k \<and> list_ex (\<lambda>y. mask_px cs y a b = 1) (select_rows kps img bb k)
        then 1 else 0))"
proof -
  have fold: "foldM (channel_step cs kps img bb inp) (zeros3 cs cs (dim2 inp)) [0..<dim2 inp] =
     Inr (tabulate3 cs cs (dim2 inp) (\<lambda>a b k.
        if k \<in> set [0..<dim2 inp] \<and> channel_positive inp k
        then foldl max 0 (map (\<lambda>y. real (unat (mask_px cs y a b))) (select_rows kps img bb k))
        else 0))"
    unfolding zeros3_tab
    by (rule foldM_channel_step_tab[OF assms]) simp_all
  have px: "astype_uint8 (if k \<in> set [0..<dim2 inp] \<and> channel_positive inp k
        then foldl max 0 (map (\<lambda>y. real (unat (mask_px cs y a b))) (select_rows kps img bb k))
        else 0) =
      (if channel_positive inp k \<and> list_ex (\<lambda>y. mask_px cs y a b = 1) (select_rows kps img bb k)
        then 1 else 0)" if "a < cs" "b < cs" "k < dim2 inp" for a b k
  proof -
    have "foldl max 0 (map (\<lambda>y. real (unat (mask_px cs y a b))) (select_rows kps img bb k)) =
        (if (0::real) = 1 \<or> list_ex (\<lambda>y. real (unat (mask_px cs y a b)) = 1) (select_rows kps img bb k)
         then 1 else 0)"
    proof (rule foldl_max_01)
      fix y
      show "real (unat (mask_px cs y a b)) = 0 \<or> real (unat (mask_px cs y a b)) = 1"
        using mask_px_01[OF that(1,2), of y] by (elim disjE) simp_all
    qed simp
    moreover have "(\<lambda>y. real (unat (mask_px cs y a b)) = 1) = (\<lambda>y. mask_px cs y a b = 1)"
      by (intro ext, rule unat_mask_eq_1, rule mask_px_01[OF that(1,2)])
    ultimately show ?thesis using that(3) by (simp del: of_nat_unat)
  qed
  have "map (map (map astype_uint8)) (tabulate3 cs cs (dim2 inp) F) =
      tabulate3 cs cs (dim2 inp) (\<lambda>a b k. astype_uint8 (F a b k))" for F
    by (simp add: tabulate3_def comp_def)
  then show ?thesis
    unfolding synthesize_def fold bind_r_Inr
    by (simp only: sum.inject) (rule tabulate3_cong, rule px)
qed

lemma synthesize_no_channels:
  "dim2 inp = 0 \<Longrightarrow> synthesize cs kps img bb inp = Inr (tabulate3 cs cs 0 f)"
  by (simp add: synthesize_def zeros3_def tabulate3_def map_replicate_const comp_def)

lemma synthesize_empty_channels:
  assumes "0 < dim2 inp" "dim0 inp = 0 \<or> dim1 inp = 0"
  shows "synthesize cs kps img bb inp = Inl ValueError"
proof -
  have "[0..<dim2 inp] = 0 # [1..<dim2 inp]" using assms(1) by (simp add: upt_conv_Cons)
  moreover have "channel_vals inp 0 = []" using assms(2) by (simp add: channel_vals_empty)
  ultimately show ?thesis
    by (simp add: synthesize_def channel_step_def np_max_def)
qed

lemma sample_basename: "basename sample_path = ''10001_1_binary_multilabel.mat''"
  by (simp add: basename_def sample_path_def)

lemma py_int_0001: "py_int ''0001'' = Inr 1"
  by (simp add: py_int_def strip_def is_space_def digits_def is_digit_def digit_val_def)

lemma py_int_1: "py_int ''1'' = Inr 1"
  by (simp add: py_int_def strip_def is_space_def digits_def is_digit_def digit_val_def)

lemma sample_ids:
  "py_int (take 4 (drop 1 (basename sample_path))) = Inr 1"
  "bind_r (str_index (basename sample_path) 6) py_int = Inr 1"
  by (simp_all add: sample_basename str_index_def py_int_0001 py_int_1)

lemma sample_load: "loadmat_data sample_fs sample_path = Inr sample_array"
  by (simp add: loadmat_data_def sample_fs_def)

lemma sample_dims: "dim0 sample_array = 1" "dim1 sample_array = 2" "dim2 sample_array = 2"
  by (simp_all add: sample_array_def)

lemma sample_channels:
  "channel_positive sample_array 0" "\<not> channel_positive sample_array 1"
  "np_max (channel_vals sample_array 1) = Inr 0"
  by (simp_all add: channel_positive_def channel_vals_def np_max_def at3_def sample_array_def
      upt_conv_Cons)

lemma sample_rows:
  "select_rows sample_keypoints 1 1 0 = [\<lparr>col0 = 1, col1 = 1, col2 = 1, col3 = 100, col4 = 200\<rparr>]"
  "select_rows sample_keypoints 1 1 1 = []"
  by (simp_all add: select_rows_def sample_keypoints_def)

lemma gaussians_Inr_iff:
  "gaussians keypoints file_path save_path fs = (Inr u, fs') \<longleftrightarrow>
     (\<exists>img bb inp d.
        py_int (take 4 (drop 1 (basename file_path))) = Inr img \<and>
        bind_r (str_index (basename file_path) 6) py_int = Inr bb \<and>
        loadmat_data fs file_path = Inr inp \<and>
        synthesize crop_size keypoints img bb inp = Inr d \<and>
        can_write fs save_path \<and>
        fs' = fs\<lparr>files := fun_upd (files fs) save_path (Some (PklFile d))\<rparr>)"
  by (auto simp: gaussians_def Let_def split: sum.splits)

lemma written_Some_iff:
  "written keypoints file_path save_path fs = Some v \<longleftrightarrow>
     (\<exists>img bb inp.
        py_int (take 4 (drop 1 (basename file_path))) = Inr img \<and>
        bind_r (str_index (basename file_path) 6) py_int = Inr bb \<and>
        loadmat_data fs file_path = Inr inp \<and>
        synthesize crop_size keypoints img bb inp = Inr v \<and>
        can_write fs save_path)"
  by (auto simp: written_def gaussians_def Let_def split: sum.splits)

lemma crop_size_pos: "0 < crop_size"
  by (simp add: crop_size_def)

lemma synthesize_Inr_form:
  assumes "synthesize cs kps img bb inp = Inr d" "0 < cs"
  shows "d = tabulate3 cs cs (dim2 inp) (\<lambda>a b k.
        if channel_positive inp k \<and> list_ex (\<lambda>y. mask_px cs y a b = 1) (select_rows kps img bb k)
        then 1 else 0)"
proof (cases "dim2 inp = 0")
  case True
  from synthesize_no_channels[OF this, of cs kps img bb "\<lambda>a b k.
        if channel_positive inp k \<and> list_ex (\<lambda>y. mask_px cs y a b = 1) (select_rows kps img bb k)
        then 1 else 0"] assms(1) show ?thesis by (simp add: True)
next
  case False
  then have c: "0 < dim2 inp" by simp
  have "0 < dim0 inp \<and> 0 < dim1 inp"
  proof (rule ccontr)
    assume "\<not> (0 < dim0 inp \<and> 0 < dim1 inp)"
    then have "dim0 inp = 0 \<or> dim1 inp = 0" by auto
    from synthesize_empty_channels[OF c this] assms(1) show False by simp
  qed
  then show ?thesis using synthesize_tab[OF assms(2), of inp kps img bb] assms(1) by simp
qed

lemma select_rows_filter:
  assumes "\<And>y. y \<in> set kps \<Longrightarrow> col2 y = real (i + 1) \<Longrightarrow> P y"
  shows "select_rows (filter P kps) img bb i = select_rows kps img bb i"
  unfolding select_rows_def filter_filter
  by (rule filter_cong[OF refl]) (use assms in auto)

lemma synthesize_filter:
  assumes "\<And>y i. y \<in> set kps \<Longrightarrow> i < dim2 inp \<Longrightarrow> col2 y = real (i + 1) \<Longrightarrow> P y"
  shows "synthesize cs (filter P kps) img bb inp = synthesize cs kps img bb inp"
proof -
  have "foldM (channel_step cs (filter P kps) img bb inp) (zeros3 cs cs (dim2 inp)) [0..<dim2 inp] =
      foldM (channel_step cs kps img bb inp) (zeros3 cs cs (dim2 inp)) [0..<dim2 inp]"
  proof (rule foldM_cong)
    fix s i assume "i \<in> set [0..<dim2 inp]"
    then have "i < dim2 inp" by simp
    then have eq: "select_rows (filter P kps) img bb i = select_rows kps img bb i"
      using assms by (intro select_rows_filter) blast
    show "channel_step cs (filter P kps) img bb inp s i = channel_step cs kps img bb inp s i"
      unfolding channel_step_def eq ..
  qed
  then show ?thesis by (simp add: synthesize_def)
qed

lemma sample_written:
  "gaussians sample_keypoints sample_path sp sample_fs =
     (Inr (), sample_fs\<lparr>files := fun_upd (files sample_fs) sp
        (Some (PklFile (tabulate3 crop_size crop_size 2 (\<lambda>a b k.
          if channel_positive sample_array k \<and>
             list_ex (\<lambda>y. mask_px crop_size y a b = 1) (select_rows sample_keypoints 1 1 k)
          then 1 else 0))))\<rparr>)"
proof -
  have "synthesize crop_size sample_keypoints 1 1 sample_array =
      Inr (tabulate3 crop_size crop_size (dim2 sample_array) (\<lambda>a b k.
          if channel_positive sample_array k \<and>
             list_ex (\<lambda>y. mask_px crop_size y a b = 1) (select_rows sample_keypoints 1 1 k)
          then 1 else 0))"
    by (rule synthesize_tab[OF crop_size_pos]) (simp_all add: sample_dims)
  moreover have "can_write sample_fs sp" by (simp add: sample_fs_def)
  ultimately show ?thesis
    unfolding gaussians_def Let_def sample_ids sample_load
    by (simp add: sample_dims)
qed

subsection \<open>The written volume\<close>

text \<open>
  Claim C7.  Every successful call of \<^verbatim>\<open>gaussians\<close> leaves at \<^verbatim>\<open>save_path\<close> a
  volume of shape \<open>(321, 321, C)\<close>, with \<open>C\<close> the number of channels of the array
  loaded from \<^verbatim>\<open>file_path\<close>; its elements are \<^verbatim>\<open>uint8\<close> (the type
  \<^typ>\<open>8 word\<close>) and each of them is 0 or 1.
\<close>

theorem gaussians_writes_binary_volume:
  assumes "gaussians keypoints file_path save_path fs = (Inr u, fs')"
  shows "\<exists>inp v. loadmat_data fs file_path = Inr inp \<and>
           files fs' save_path = Some (PklFile v) \<and>
           length v = 321 \<and>
           (\<forall>a<321. length (v ! a) = 321 \<and>
              (\<forall>b<321. length (v ! a ! b) = dim2 inp \<and>
                 (\<forall>i<dim2 inp. v ! a ! b ! i = 0 \<or> v ! a ! b ! i = 1)))"
proof -
  from assms obtain img bb inp d where
    l: "loadmat_data fs file_path = Inr inp" and
    s: "synthesize crop_size keypoints img bb inp = Inr d" and
    f: "fs' = fs\<lparr>files := fun_upd (files fs) save_path (Some (PklFile d))\<rparr>"
    unfolding gaussians_Inr_iff by blast
  note d = synthesize_Inr_form[OF s crop_size_pos]
  have "files fs' save_path = Some (PklFile d)" using f by simp
  moreover have "length d = 321" unfolding d by (simp add: tabulate3_shape crop_size_def)
  moreover have "length (d ! a) = 321" if "a < 321" for a
    unfolding d using that by (simp add: tabulate3_shape crop_size_def)
  moreover have "length (d ! a ! b) = dim2 inp" if "a < 321" "b < 321" for a b
    unfolding d using that by (simp add: tabulate3_shape crop_size_def)
  moreover have "d ! a ! b ! i = 0 \<or> d ! a ! b ! i = 1" if "a < 321" "b < 321" "i < dim2 inp" for a b i
    unfolding d using that by (simp add: tabulate3_nth crop_size_def)
  ultimately show ?thesis using l by blast
qed

text \<open>The sample call succeeds, and its volume has this shape.\<close>

theorem gaussians_writes_binary_volume_witness:
  "\<exists>fs' v. gaussians sample_keypoints sample_path ''/out/10001_1.pkl'' sample_fs = (Inr (), fs') \<and>
      loadmat_data sample_fs sample_path = Inr sample_array \<and>
      files fs' ''/out/10001_1.pkl'' = Some (PklFile v) \<and>
      length v = 321 \<and> length (v ! 5) = 321 \<and> length (v ! 5 ! 7) = dim2 sample_array \<and>
      (v ! 5 ! 7 ! 1 = 0 \<or> v ! 5 ! 7 ! 1 = 1)"
proof -
  obtain fs' where g: "gaussians sample_keypoints sample_path ''/out/10001_1.pkl'' sample_fs = (Inr (), fs')"
    using sample_written by blast
  from gaussians_writes_binary_volume[OF g] obtain inp v where
    v: "loadmat_data sample_fs sample_path = Inr inp"
       "files fs' ''/out/10001_1.pkl'' = Some (PklFile v)" "length v = 321"
       "\<forall>a<321. length (v ! a) = 321 \<and>
              (\<forall>b<321. length (v ! a ! b) = dim2 inp \<and>
                 (\<forall>i<dim2 inp. v ! a ! b ! i = 0 \<or> v ! a ! b ! i = 1))"
    by blast
  have inp: "inp = sample_array" using v(1) by (simp add: sample_load)
  have "length (v ! 5) = 321" "length (v ! 5 ! 7) = dim2 sample_array"
    "v ! 5 ! 7 ! 1 = 0 \<or> v ! 5 ! 7 ! 1 = 1"
    using v(4) inp by (simp_all add: sample_dims)
  then show ?thesis using g v(2,3) sample_load by blast
qed

subsection \<open>A malformed file name\<close>

text \<open>
  Four values of \<^verbatim>\<open>int\<close>: ASCII white space and a sign around the digits, single
  underscores between them; the separators 28 and 31 are not white space; the
  no-break space 160 is.
\<close>

lemma py_int_padded: "py_int '' +1_2 '' = Inr 12"
  by (simp add: py_int_def strip_def is_space_def digits_def is_digit_def digit_val_def)

lemma py_int_double_underscore: "py_int ''1__2'' = Inl ValueError"
  by (simp add: py_int_def strip_def is_space_def digits_def is_digit_def digit_val_def)

lemma py_int_separators: "py_int ([CHR 0x1C] @ ''12'' @ [CHR 0x1F]) = Inl ValueError"
  by (simp add: py_int_def strip_def is_space_def digits_def is_digit_def digit_val_def)

lemma py_int_no_break_space: "py_int ([CHR 0xA0] @ ''123'') = Inr 123"
  by (simp add: py_int_def strip_def is_space_def digits_def is_digit_def digit_val_def)

text \<open>
  Claim C8.  When the base name of \<^verbatim>\<open>file_path\<close> has no integer at positions 1 to 4
  or no integer at position 6, the call raises (a \<^verbatim>\<open>ValueError\<close> or an
  \<^verbatim>\<open>IndexError\<close>) and the files are what they were before the call: nothing is
  written to \<^verbatim>\<open>save_path\<close>.
\<close>

theorem gaussians_malformed_name:
  assumes "(\<nexists>image_id. py_int (take 4 (drop 1 (basename file_path))) = Inr image_id) \<or>
           (\<nexists>bb_id. bind_r (str_index (basename file_path) 6) py_int = Inr bb_id)"
  shows "\<exists>e. gaussians keypoints file_path save_path fs = (Inl e, fs) \<and>
              (e = ValueError \<or> e = IndexError)"
proof -
  have pi: "e = ValueError" if "py_int s = Inl e" for s e
    using that by (simp add: py_int_def Let_def split: option.splits)
  have si: "e = ValueError \<or> e = IndexError" if "bind_r (str_index s n) py_int = Inl e" for s n e
    using that pi by (auto simp: str_index_def split: if_splits)
  show ?thesis
  proof (cases "py_int (take 4 (drop 1 (basename file_path)))")
    case (Inl e)
    then show ?thesis using pi[OF Inl] by (simp add: gaussians_def)
  next
    case (Inr image_id)
    then obtain e where e: "bind_r (str_index (basename file_path) 6) py_int = Inl e"
      using assms by (cases "bind_r (str_index (basename file_path) 6) py_int") auto
    then show ?thesis using Inr si[OF e] by (simp add: gaussians_def)
  qed
qed

text \<open>
  A name with letters where the image id should be, a name too short to have a
  position 6, and a name whose positions 1 to 4 hold the digits 12 between the
  separators 28 and 31, which \<^verbatim>\<open>int\<close> does not take for white space.
\<close>

theorem gaussians_malformed_name_witness:
  "(\<nexists>image_id. py_int (take 4 (drop 1 (basename ''/cad/readme_1.mat''))) = Inr image_id) \<and>
   (\<exists>e. gaussians sample_keypoints ''/cad/readme_1.mat'' ''/out/l.pkl'' sample_fs = (Inl e, sample_fs) \<and>
        (e = ValueError \<or> e = IndexError)) \<and>
   (\<nexists>bb_id. bind_r (str_index (basename ''/cad/10001'') 6) py_int = Inr bb_id) \<and>
   (\<exists>e. gaussians sample_keypoints ''/cad/10001'' ''/out/l.pkl'' sample_fs = (Inl e, sample_fs) \<and>
        (e = ValueError \<or> e = IndexError)) \<and>
   (\<nexists>image_id. py_int (take 4 (drop 1 (basename (''/cad/1'' @ [CHR 0x1C] @ ''12'' @ [CHR 0x1F] @ ''_1.mat'')))) =
        Inr image_id) \<and>
   (\<exists>e. gaussians sample_keypoints (''/cad/1'' @ [CHR 0x1C] @ ''12'' @ [CHR 0x1F] @ ''_1.mat'') ''/out/l.pkl''
          sample_fs = (Inl e, sample_fs) \<and>
        (e = ValueError \<or> e = IndexError))"
proof -
  have a: "\<nexists>image_id. py_int (take 4 (drop 1 (basename ''/cad/readme_1.mat''))) = Inr image_id"
    by (simp add: basename_def py_int_def strip_def is_space_def digits_def is_digit_def)
  have b: "\<nexists>bb_id. bind_r (str_index (basename ''/cad/10001'') 6) py_int = Inr bb_id"
    by (simp add: basename_def str_index_def)
  have c: "\<nexists>image_id. py_int (take 4 (drop 1 (basename (''/cad/1'' @ [CHR 0x1C] @ ''12'' @ [CHR 0x1F] @ ''_1.mat'')))) =
        Inr image_id"
    by (simp add: basename_def py_int_def strip_def is_space_def digits_def is_digit_def)
  show ?thesis
    using a b c gaussians_malformed_name[of "''/cad/readme_1.mat''" sample_keypoints "''/out/l.pkl''" sample_fs]
      gaussians_malformed_name[of "''/cad/10001''" sample_keypoints "''/out/l.pkl''" sample_fs]
      gaussians_malformed_name[of "''/cad/1'' @ [CHR 0x1C] @ ''12'' @ [CHR 0x1F] @ ''_1.mat''"
        sample_keypoints "''/out/l.pkl''" sample_fs]
    by blast
qed

subsection \<open>Rows of channels the array does not have\<close>

text \<open>
  Claim C10.  Rows whose channel index (the third column) is none of \<open>1, ..., C\<close>,
  with \<open>C\<close> the number of channels of the loaded array, are ignored: removing them
  from the table changes neither the result of the call (so they raise nothing)
  nor the files after it.
\<close>

theorem gaussians_ignores_foreign_channels:
  assumes "loadmat_data fs file_path = Inr inp"
  shows "gaussians (filter (\<lambda>y. list_ex (\<lambda>i. col2 y = real (i + 1)) [0..<dim2 inp]) keypoints)
           file_path save_path fs =
         gaussians keypoints file_path save_path fs"
proof -
  have "synthesize crop_size (filter (\<lambda>y. list_ex (\<lambda>i. col2 y = real (i + 1)) [0..<dim2 inp]) keypoints) img bb inp =
      synthesize crop_size keypoints img bb inp" for img bb
    by (rule synthesize_filter) (auto simp: list_ex_iff)
  then show ?thesis using assms by (simp add: gaussians_def Let_def split: sum.splits)
qed

text \<open>
  The sample table has a row of channel 7 and the sample array two channels; the
  filter removes exactly that row.
\<close>

theorem gaussians_ignores_foreign_channels_witness:
  "loadmat_data sample_fs sample_path = Inr sample_array \<and>
   filter (\<lambda>y. list_ex (\<lambda>i. col2 y = real (i + 1)) [0..<dim2 sample_array]) sample_keypoints =
     [\<lparr>col0 = 1, col1 = 1, col2 = 1, col3 = 100, col4 = 200\<rparr>,
      \<lparr>col0 = 2, col1 = 1, col2 = 1, col3 = 30, col4 = 40\<rparr>] \<and>
   gaussians [\<lparr>col0 = 1, col1 = 1, col2 = 1, col3 = 100, col4 = 200\<rparr>,
              \<lparr>col0 = 2, col1 = 1, col2 = 1, col3 = 30, col4 = 40\<rparr>] sample_path ''/out/l.pkl'' sample_fs =
     gaussians sample_keypoints sample_path ''/out/l.pkl'' sample_fs"
proof -
  have f: "filter (\<lambda>y. list_ex (\<lambda>i. col2 y = real (i + 1)) [0..<dim2 sample_array]) sample_keypoints =
     [\<lparr>col0 = 1, col1 = 1, col2 = 1, col3 = 100, col4 = 200\<rparr>,
      \<lparr>col0 = 2, col1 = 1, col2 = 1, col3 = 30, col4 = 40\<rparr>]"
    by (simp add: sample_keypoints_def sample_dims upt_conv_Cons)
  show ?thesis
    using gaussians_ignores_foreign_channels[OF sample_load, of sample_keypoints "''/out/l.pkl''"]
      sample_load
    unfolding f by simp
qed

subsection \<open>Channels that stay zero\<close>

text \<open>
  Claim C6.  For a call whose ids parse, whose array loads and whose destination can
  be written, and a channel \<open>i\<close> whose maximum exists: when that maximum is not
  positive, or when no row of the table matches the image id, the bounding-box id and
  the channel index \<open>i + 1\<close>, the call returns without an error and channel \<open>i\<close> of
  the written volume is zero at every pixel.
\<close>

theorem gaussians_zero_channel:
  assumes "py_int (take 4 (drop 1 (basename file_path))) = Inr image_id"
    and "bind_r (str_index (basename file_path) 6) py_int = Inr bb_id"
    and "loadmat_data fs file_path = Inr inp"
    and "can_write fs save_path"
    and "i < dim2 inp"
    and "np_max (channel_vals inp i) = Inr mx"
    and "mx \<le> 0 \<or> select_rows keypoints image_id bb_id i = []"
  shows "\<exists>fs' v. gaussians keypoints file_path save_path fs = (Inr (), fs') \<and>
           files fs' save_path = Some (PklFile v) \<and>
           (\<forall>a<321. \<forall>b<321. v ! a ! b ! i = 0)"
proof -
  have ne: "channel_vals inp i \<noteq> []" using assms(6) by (auto simp: np_max_def)
  then have dims: "0 < dim0 inp" "0 < dim1 inp" by (simp_all add: channel_vals_empty)
  define v where "v = tabulate3 crop_size crop_size (dim2 inp) (\<lambda>a b k.
        if channel_positive inp k \<and>
           list_ex (\<lambda>y. mask_px crop_size y a b = 1) (select_rows keypoints image_id bb_id k)
        then 1 else (0 :: 8 word))"
  have s: "synthesize crop_size keypoints image_id bb_id inp = Inr v"
    unfolding v_def by (rule synthesize_tab[OF crop_size_pos dims])
  have g: "gaussians keypoints file_path save_path fs =
      (Inr (), fs\<lparr>files := fun_upd (files fs) save_path (Some (PklFile v))\<rparr>)"
    unfolding gaussians_Inr_iff using assms(1-4) s by blast
  have off: "\<not> (channel_positive inp i \<and>
      list_ex (\<lambda>y. mask_px crop_size y a b = 1) (select_rows keypoints image_id bb_id i))" for a b
    using assms(6,7) by (auto simp: channel_positive_def)
  have "v ! a ! b ! i = 0" if "a < 321" "b < 321" for a b
    unfolding v_def using that assms(5) off[of a b] by (simp add: tabulate3_nth crop_size_def)
  then show ?thesis using g by auto
qed

text \<open>
  Channel 1 of the sample array has maximum 0, and no row of the sample table is of
  channel index 2.
\<close>

theorem gaussians_zero_channel_witness:
  "py_int (take 4 (drop 1 (basename sample_path))) = Inr 1 \<and>
   bind_r (str_index (basename sample_path) 6) py_int = Inr 1 \<and>
   loadmat_data sample_fs sample_path = Inr sample_array \<and>
   can_write sample_fs ''/out/l.pkl'' \<and> 1 < dim2 sample_array \<and>
   np_max (channel_vals sample_array 1) = Inr 0 \<and>
   select_rows sample_keypoints 1 1 1 = [] \<and>
   (\<exists>fs' v. gaussians sample_keypoints sample_path ''/out/l.pkl'' sample_fs = (Inr (), fs') \<and>
           files fs' ''/out/l.pkl'' = Some (PklFile v) \<and> v ! 99 ! 199 ! 1 = 0)"
proof -
  have w: "can_write sample_fs ''/out/l.pkl''" by (simp add: sample_fs_def)
  have c: "1 < dim2 sample_array" by (simp add: sample_dims)
  have h: "(0::real) \<le> 0 \<or> select_rows sample_keypoints 1 1 1 = []" by simp
  from gaussians_zero_channel[OF sample_ids sample_load w c sample_channels(3) h]
  obtain fs' v where
    "gaussians sample_keypoints sample_path ''/out/l.pkl'' sample_fs = (Inr (), fs')"
    "files fs' ''/out/l.pkl'' = Some (PklFile v)" "\<forall>a<321. \<forall>b<321. v ! a ! b ! 1 = 0"
    by blast
  moreover from this(3) have "v ! 99 ! 199 ! 1 = 0" by simp
  ultimately show ?thesis using sample_ids sample_load w c sample_channels(3) sample_rows(2) by blast
qed

subsection \<open>The union of the blobs\<close>

lemma foldl_max_two:
  fixes g :: "'a \<Rightarrow> 'b::linorder"
  assumes "lo < hi" "\<And>y. g y = lo \<or> g y = hi" "v = lo \<or> v = hi"
  shows "foldl max v (map g ys) = (if v = hi \<or> list_ex (\<lambda>y. g y = hi) ys then hi else lo)"
  using assms(3)
proof (induction ys arbitrary: v)
  case Nil
  then show ?case using assms(1) by auto
next
  case (Cons y ys)
  have m: "max v (g y) = lo \<or> max v (g y) = hi"
    using Cons.prems assms(1) assms(2)[of y] by (auto simp: max_def)
  have o: "max v (g y) = hi \<longleftrightarrow> v = hi \<or> g y = hi"
    using Cons.prems assms(1) assms(2)[of y] by (auto simp: max_def)
  show ?case using Cons.IH[OF m] o by simp
qed

lemma foldl_or_01:
  fixes g :: "'a \<Rightarrow> 8 word"
  assumes "\<And>y. g y = 0 \<or> g y = 1" "v = 0 \<or> v = 1"
  shows "foldl (OR) v (map g ys) = (if v = 1 \<or> list_ex (\<lambda>y. g y = 1) ys then 1 else 0)"
  using assms(2)
proof (induction ys arbitrary: v)
  case Nil
  then show ?case by auto
next
  case (Cons y ys)
  have m: "v OR g y = 0 \<or> v OR g y = 1" using Cons.prems assms(1)[of y] by auto
  have o: "v OR g y = 1 \<longleftrightarrow> v = 1 \<or> g y = 1"
    using Cons.prems assms(1)[of y] by auto
  show ?case using Cons.IH[OF m] o by simp
qed

lemma list_ex_select_rows:
  "list_ex P (select_rows kps img bb i) = list_ex (\<lambda>y. list_ex P (select_rows [y] img bb i)) kps"
  by (auto simp: select_rows_def list_ex_iff)

lemma synthesize_success_indep:
  assumes "synthesize cs kps img bb inp = Inr d" "0 < cs"
  shows "synthesize cs kps' img bb inp =
     Inr (tabulate3 cs cs (dim2 inp) (\<lambda>a b k.
        if channel_positive inp k \<and> list_ex (\<lambda>y. mask_px cs y a b = 1) (select_rows kps' img bb k)
        then 1 else 0))"
proof (cases "dim2 inp = 0")
  case True
  from synthesize_no_channels[OF this] show ?thesis by (simp add: True)
next
  case False
  then have c: "0 < dim2 inp" by simp
  have "0 < dim0 inp \<and> 0 < dim1 inp"
  proof (rule ccontr)
    assume "\<not> (0 < dim0 inp \<and> 0 < dim1 inp)"
    then have "dim0 inp = 0 \<or> dim1 inp = 0" by auto
    from synthesize_empty_channels[OF c this] assms(1) show False by simp
  qed
  then show ?thesis using synthesize_tab[OF assms(2), of inp kps' img bb] by simp
qed

text \<open>
  Claim C2.  Each channel of the synthesized volume is the pixel-wise maximum, and
  the pixel-wise OR, of the same channel of the volumes synthesized from the rows of
  the table one at a time.  With a table of two rows this is the union of the two
  independently synthesized masks, however far apart the keypoints are.  On a channel
  whose reference maximum is positive it is also the pixel-wise maximum of the
  binarised surfaces (line 44) of the rows that match the channel.
\<close>

theorem gaussians_union:
  assumes "written keypoints file_path save_path fs = Some v"
  shows "\<exists>image_id bb_id inp vs.
           py_int (take 4 (drop 1 (basename file_path))) = Inr image_id \<and>
           bind_r (str_index (basename file_path) 6) py_int = Inr bb_id \<and>
           loadmat_data fs file_path = Inr inp \<and>
           map (\<lambda>y. written [y] file_path save_path fs) keypoints = map Some vs \<and>
           (\<forall>a<321. \<forall>b<321. \<forall>i<dim2 inp.
              v ! a ! b ! i = foldl max 0 (map (\<lambda>w. w ! a ! b ! i) vs) \<and>
              v ! a ! b ! i = foldl (OR) 0 (map (\<lambda>w. w ! a ! b ! i) vs) \<and>
              (channel_positive inp i \<longrightarrow>
                 v ! a ! b ! i =
                   foldl max 0 (map (\<lambda>y. mask_px crop_size y a b) (select_rows keypoints image_id bb_id i))))"
proof -
  from assms obtain img bb inp where
    p: "py_int (take 4 (drop 1 (basename file_path))) = Inr img"
       "bind_r (str_index (basename file_path) 6) py_int = Inr bb"
       "loadmat_data fs file_path = Inr inp" "can_write fs save_path" and
    s: "synthesize crop_size keypoints img bb inp = Inr v"
    unfolding written_Some_iff by blast
  define one where "one = (\<lambda>y. tabulate3 crop_size crop_size (dim2 inp) (\<lambda>a b k.
        if channel_positive inp k \<and> list_ex (\<lambda>y. mask_px crop_size y a b = 1) (select_rows [y] img bb k)
        then 1 else (0 :: 8 word)))"
  have w: "written [y] file_path save_path fs = Some (one y)" for y
    unfolding written_Some_iff one_def
    using p synthesize_success_indep[OF s crop_size_pos, of "[y]"] by blast
  have vs: "map (\<lambda>y. written [y] file_path save_path fs) keypoints = map Some (map one keypoints)"
    by (simp add: w)
  note v = synthesize_Inr_form[OF s crop_size_pos]
  have px: "v ! a ! b ! i = foldl max 0 (map (\<lambda>w. w ! a ! b ! i) (map one keypoints)) \<and>
            v ! a ! b ! i = foldl (OR) 0 (map (\<lambda>w. w ! a ! b ! i) (map one keypoints)) \<and>
            (channel_positive inp i \<longrightarrow>
               v ! a ! b ! i = foldl max 0 (map (\<lambda>y. mask_px crop_size y a b) (select_rows keypoints img bb i)))"
    if r: "a < 321" "b < 321" "i < dim2 inp" for a b i
  proof -
    define g where "g = (\<lambda>y. if channel_positive inp i \<and>
        list_ex (\<lambda>y. mask_px crop_size y a b = 1) (select_rows [y] img bb i) then 1 else (0 :: 8 word))"
    have g01: "g y = 0 \<or> g y = 1" for y by (simp add: g_def)
    have m: "map (\<lambda>w. w ! a ! b ! i) (map one keypoints) = map g keypoints"
      using r by (simp add: one_def g_def tabulate3_nth crop_size_def)
    have vi: "v ! a ! b ! i = (if channel_positive inp i \<and>
        list_ex (\<lambda>y. mask_px crop_size y a b = 1) (select_rows keypoints img bb i) then 1 else 0)"
      unfolding v using r by (simp add: tabulate3_nth crop_size_def)
    have ge: "list_ex (\<lambda>y. g y = 1) keypoints \<longleftrightarrow> channel_positive inp i \<and>
        list_ex (\<lambda>y. mask_px crop_size y a b = 1) (select_rows keypoints img bb i)"
      unfolding list_ex_select_rows[of _ keypoints] by (auto simp: g_def list_ex_iff)
    have l: "v ! a ! b ! i = (if list_ex (\<lambda>y. g y = 1) keypoints then 1 else 0)"
      using vi ge by simp
    have "foldl max 0 (map g keypoints) = (if (0 :: 8 word) = 1 \<or> list_ex (\<lambda>y. g y = 1) keypoints then 1 else 0)"
      by (rule foldl_max_two) (simp_all add: g01)
    moreover have "foldl (OR) 0 (map g keypoints) =
        (if (0 :: 8 word) = 1 \<or> list_ex (\<lambda>y. g y = 1) keypoints then 1 else 0)"
      by (rule foldl_or_01) (simp_all add: g01)
    moreover have "foldl max 0 (map (\<lambda>y. mask_px crop_size y a b) (select_rows keypoints img bb i)) =
        (if (0 :: 8 word) = 1 \<or> list_ex (\<lambda>y. mask_px crop_size y a b = 1) (select_rows keypoints img bb i)
         then 1 else 0)"
      by (rule foldl_max_two) (use r mask_px_01[of a crop_size b] in \<open>simp_all add: crop_size_def\<close>)
    ultimately show ?thesis unfolding m l using ge by simp
  qed
  show ?thesis using p(1,2,3) vs px by blast
qed

text \<open>The sample table, at the pixel of array index \<open>[199, 99]\<close> of channel 0.\<close>

theorem gaussians_union_witness:
  "\<exists>v vs. written sample_keypoints sample_path ''/out/l.pkl'' sample_fs = Some v \<and>
      loadmat_data sample_fs sample_path = Inr sample_array \<and>
      map (\<lambda>y. written [y] sample_path ''/out/l.pkl'' sample_fs) sample_keypoints = map Some vs \<and>
      v ! 199 ! 99 ! 0 = foldl max 0 (map (\<lambda>w. w ! 199 ! 99 ! 0) vs) \<and>
      v ! 199 ! 99 ! 0 = foldl (OR) 0 (map (\<lambda>w. w ! 199 ! 99 ! 0) vs) \<and>
      channel_positive sample_array 0 \<and>
      v ! 199 ! 99 ! 0 =
        foldl max 0 (map (\<lambda>y. mask_px crop_size y 199 99) (select_rows sample_keypoints 1 1 0))"
proof -
  obtain v where v: "written sample_keypoints sample_path ''/out/l.pkl'' sample_fs = Some v"
    by (simp add: written_def sample_written)
  from gaussians_union[OF v] obtain img bb inp vs where
    r: "py_int (take 4 (drop 1 (basename sample_path))) = Inr img"
       "bind_r (str_index (basename sample_path) 6) py_int = Inr bb"
       "loadmat_data sample_fs sample_path = Inr inp"
       "map (\<lambda>y. written [y] sample_path ''/out/l.pkl'' sample_fs) sample_keypoints = map Some vs"
       "\<forall>a<321. \<forall>b<321. \<forall>i<dim2 inp.
              v ! a ! b ! i = foldl max 0 (map (\<lambda>w. w ! a ! b ! i) vs) \<and>
              v ! a ! b ! i = foldl (OR) 0 (map (\<lambda>w. w ! a ! b ! i) vs) \<and>
              (channel_positive inp i \<longrightarrow>
                 v ! a ! b ! i =
                   foldl max 0 (map (\<lambda>y. mask_px crop_size y a b) (select_rows sample_keypoints img bb i)))"
    by blast
  have e: "img = 1" "bb = 1" "inp = sample_array"
    using r(1,2,3) unfolding sample_ids sample_load by simp_all
  have d: "0 < dim2 inp" by (simp add: e sample_dims)
  have "(199::nat) < 321" "(99::nat) < 321" by simp_all
  from r(5)[rule_format, OF this d]
  have "v ! 199 ! 99 ! 0 = foldl max 0 (map (\<lambda>w. w ! 199 ! 99 ! 0) vs)"
    "v ! 199 ! 99 ! 0 = foldl (OR) 0 (map (\<lambda>w. w ! 199 ! 99 ! 0) vs)"
    "v ! 199 ! 99 ! 0 =
        foldl max 0 (map (\<lambda>y. mask_px crop_size y 199 99) (select_rows sample_keypoints 1 1 0))"
    unfolding e using sample_channels(1) by blast+
  then show ?thesis using v r(4) sample_load sample_channels(1) by blast
qed

subsection \<open>The surface of one keypoint and its threshold\<close>

lemma llkh_at_closed:
  "llkh_at (r0, c0, gaussian_size ^ 2, gaussian_size ^ 2, 0) (r, c) =
     exp (- ((r - r0)\<^sup>2 + (c - c0)\<^sup>2) / 5000) / sqrt (12500000 * pi)"
proof -
  have q: "quad_form (pinv2 ((2500, 0), (0, 2500))) (r - r0, c - c0) = ((r - r0)\<^sup>2 + (c - c0)\<^sup>2) / 2500"
    by (simp add: quad_form_def pinv2_def det2_def power2_eq_square add_divide_distrib)
  have e: "- 0.5 * (D / 2500) = - D / 5000" for D :: real
    by argo
  have "llkh_at (r0, c0, gaussian_size ^ 2, gaussian_size ^ 2, 0) (r, c) =
      1 / sqrt (12500000 * pi) * exp (- 0.5 * (((r - r0)\<^sup>2 + (c - c0)\<^sup>2) / 2500))"
    by (simp add: llkh_at_def gaussian_size_def q Let_def det2_def del: minus_add_distrib)
  then show ?thesis unfolding e by simp
qed

lemma llkh_at_pos: "0 < llkh_at (r0, c0, gaussian_size ^ 2, gaussian_size ^ 2, 0) (r, c)"
  unfolding llkh_at_closed by simp

lemma llkh_at_le_peak:
  "llkh_at (r0, c0, gaussian_size ^ 2, gaussian_size ^ 2, 0) (r, c) \<le> 1 / sqrt (12500000 * pi)"
proof -
  have "exp (- ((r - r0)\<^sup>2 + (c - c0)\<^sup>2) / 5000) \<le> 1" by simp
  then show ?thesis unfolding llkh_at_closed by (intro divide_right_mono) simp_all
qed

lemma llkh_at_peak:
  "llkh_at (r0, c0, gaussian_size ^ 2, gaussian_size ^ 2, 0) (r0, c0) = 1 / sqrt (12500000 * pi)"
  unfolding llkh_at_closed by simp

lemma grid_peak:
  assumes "a0 < cs" "b0 < cs"
  shows "Max {llkh_at (real (b0 + 1), real (a0 + 1), gaussian_size ^ 2, gaussian_size ^ 2, 0)
                (real (b + 1), real (a + 1)) | a b. a < cs \<and> b < cs} = 1 / sqrt (12500000 * pi)"
proof (rule Max_eqI)
  have "{llkh_at (real (b0 + 1), real (a0 + 1), gaussian_size ^ 2, gaussian_size ^ 2, 0)
                (real (b + 1), real (a + 1)) | a b. a < cs \<and> b < cs} =
      (\<lambda>(a, b). llkh_at (real (b0 + 1), real (a0 + 1), gaussian_size ^ 2, gaussian_size ^ 2, 0)
                (real (b + 1), real (a + 1))) ` ({..<cs} \<times> {..<cs})"
    by auto
  then show "finite {llkh_at (real (b0 + 1), real (a0 + 1), gaussian_size ^ 2, gaussian_size ^ 2, 0)
                (real (b + 1), real (a + 1)) | a b. a < cs \<and> b < cs}"
    by simp
next
  fix v assume "v \<in> {llkh_at (real (b0 + 1), real (a0 + 1), gaussian_size ^ 2, gaussian_size ^ 2, 0)
                (real (b + 1), real (a + 1)) | a b. a < cs \<and> b < cs}"
  then show "v \<le> 1 / sqrt (12500000 * pi)" using llkh_at_le_peak by auto
next
  show "1 / sqrt (12500000 * pi) \<in> {llkh_at (real (b0 + 1), real (a0 + 1), gaussian_size ^ 2, gaussian_size ^ 2, 0)
                (real (b + 1), real (a + 1)) | a b. a < cs \<and> b < cs}"
  proof (intro CollectI exI conjI)
    show "1 / sqrt (12500000 * pi) =
        llkh_at (real (b0 + 1), real (a0 + 1), gaussian_size ^ 2, gaussian_size ^ 2, 0)
          (real (b0 + 1), real (a0 + 1))"
      by (rule llkh_at_peak[symmetric])
  qed (use assms in auto)
qed

lemma exp_threshold:
  fixes d :: real
  assumes "0 < K"
  shows "exp (- d / 5000) / K > (1 / K) / exp 1 \<longleftrightarrow> d < 5000"
proof -
  have "exp (- d / 5000) / K > (1 / K) / exp 1 \<longleftrightarrow> exp (- d / 5000) > exp (- 1)"
    using assms by (simp add: exp_minus field_simps)
  also have "\<dots> \<longleftrightarrow> - d / 5000 > - 1" by (rule exp_less_cancel_iff)
  also have "\<dots> \<longleftrightarrow> d < 5000" by (simp add: field_simps)
  finally show ?thesis .
qed

lemma mask_px_disc:
  assumes "a < cs" "b < cs" "a0 < cs" "b0 < cs" "col3 y = real (b0 + 1)" "col4 y = real (a0 + 1)"
  shows "mask_px cs y a b = (if (real (b + 1) - col3 y)\<^sup>2 + (real (a + 1) - col4 y)\<^sup>2 < 5000 then 1 else 0)"
proof -
  have K: "0 < sqrt (12500000 * pi)" by simp
  have "mask_px cs y a b =
      (if llkh_at (real (b0 + 1), real (a0 + 1), gaussian_size ^ 2, gaussian_size ^ 2, 0) (real (b + 1), real (a + 1))
         > (1 / sqrt (12500000 * pi)) / exp 1
      then 1 else 0)"
    unfolding mask_px_grid[OF assms(1,2)] assms(5,6) grid_peak[OF assms(3,4)] ..
  also have "\<dots> = (if (real (b + 1) - real (b0 + 1))\<^sup>2 + (real (a + 1) - real (a0 + 1))\<^sup>2 < 5000 then 1 else 0)"
    unfolding llkh_at_closed exp_threshold[OF K] ..
  finally show ?thesis unfolding assms(5,6) .
qed

lemma disc_linked:
  fixes a0 b0 N :: nat and R :: real
  assumes c: "a0 < N" "b0 < N" and R: "0 < R"
    and on: "\<And>a b. on a b \<longleftrightarrow> a < N \<and> b < N \<and> (real b - real b0)\<^sup>2 + (real a - real a0)\<^sup>2 < R"
  shows "on a b \<Longrightarrow> linked on (a0, b0) (a, b)"
proof (induction "(if a0 \<le> a then a - a0 else a0 - a) + (if b0 \<le> b then b - b0 else b0 - b)"
    arbitrary: a b)
  case 0
  then have "a = a0" "b = b0" by (auto split: if_splits)
  then show ?case using "0.prems" by (auto intro: linked.start)
next
  case (Suc n)
  have ab: "a < N" "b < N" and d: "(real b - real b0)\<^sup>2 + (real a - real a0)\<^sup>2 < R"
    using Suc.prems on by auto
  consider (up) "a0 < a" | (down) "a < a0" | (right) "a = a0" "b0 < b" | (left) "a = a0" "b < b0"
    using Suc.hyps(2) by (cases a a0 rule: linorder_cases; cases b b0 rule: linorder_cases) auto
  then show ?case
  proof cases
    case up
    have "\<bar>real (a - 1) - real a0\<bar> \<le> \<bar>real a - real a0\<bar>" using up by simp
    then have "(real (a - 1) - real a0)\<^sup>2 \<le> (real a - real a0)\<^sup>2" by (simp only: abs_le_square_iff)
    then have o: "on (a - 1) b" using on ab d by auto
    have "n = (if a0 \<le> a - 1 then a - 1 - a0 else a0 - (a - 1)) + (if b0 \<le> b then b - b0 else b0 - b)"
      using Suc.hyps(2) up by (auto split: if_splits)
    from Suc.hyps(1)[OF this o] have "linked on (a0, b0) (a - 1, b)" .
    then show ?thesis by (rule linked.step[of _ _ _ _ a b]) (use Suc.prems up in auto)
  next
    case down
    have "\<bar>real (a + 1) - real a0\<bar> \<le> \<bar>real a - real a0\<bar>" using down by simp
    then have "(real (a + 1) - real a0)\<^sup>2 \<le> (real a - real a0)\<^sup>2" by (simp only: abs_le_square_iff)
    moreover have "a + 1 < N" using down c by simp
    ultimately have o: "on (a + 1) b" using on ab d by auto
    have "n = (if a0 \<le> a + 1 then a + 1 - a0 else a0 - (a + 1)) + (if b0 \<le> b then b - b0 else b0 - b)"
      using Suc.hyps(2) down by (auto split: if_splits)
    from Suc.hyps(1)[OF this o] have "linked on (a0, b0) (a + 1, b)" .
    then show ?thesis by (rule linked.step[of _ _ _ _ a b]) (use Suc.prems down in auto)
  next
    case right
    have "\<bar>real (b - 1) - real b0\<bar> \<le> \<bar>real b - real b0\<bar>" using right by simp
    then have "(real (b - 1) - real b0)\<^sup>2 \<le> (real b - real b0)\<^sup>2" by (simp only: abs_le_square_iff)
    then have o: "on a (b - 1)" using on ab d by auto
    have "n = (if a0 \<le> a then a - a0 else a0 - a) + (if b0 \<le> b - 1 then b - 1 - b0 else b0 - (b - 1))"
      using Suc.hyps(2) right by (auto split: if_splits)
    from Suc.hyps(1)[OF this o] have "linked on (a0, b0) (a, b - 1)" .
    then show ?thesis by (rule linked.step[of _ _ _ _ a b]) (use Suc.prems right in auto)
  next
    case left
    have "\<bar>real (b + 1) - real b0\<bar> \<le> \<bar>real b - real b0\<bar>" using left by simp
    then have "(real (b + 1) - real b0)\<^sup>2 \<le> (real b - real b0)\<^sup>2" by (simp only: abs_le_square_iff)
    moreover have "b + 1 < N" using left c by simp
    ultimately have o: "on a (b + 1)" using on ab d by auto
    have "n = (if a0 \<le> a then a - a0 else a0 - a) + (if b0 \<le> b + 1 then b + 1 - b0 else b0 - (b + 1))"
      using Suc.hyps(2) left by (auto split: if_splits)
    from Suc.hyps(1)[OF this o] have "linked on (a0, b0) (a, b + 1)" .
    then show ?thesis by (rule linked.step[of _ _ _ _ a b]) (use Suc.prems left in auto)
  qed
qed

lemma sqrt_radius: "sqrt D < gaussian_size * sqrt 2 \<longleftrightarrow> D < 5000"
proof -
  have "gaussian_size * sqrt 2 = sqrt 5000"
  proof -
    have "sqrt 5000 = sqrt (2500 * 2)" by simp
    also have "\<dots> = sqrt 2500 * sqrt 2" by (rule real_sqrt_mult)
    also have "sqrt 2500 = 50" by (rule real_sqrt_unique) simp_all
    finally show ?thesis by (simp add: gaussian_size_def)
  qed
  then show ?thesis by simp
qed

lemma radius_pos: "0 < gaussian_size * sqrt 2"
  by (simp add: gaussian_size_def)

text \<open>
  What the code draws for a single row.  In a call in which exactly one row \<open>y\<close>
  of the table is selected for channel \<open>i\<close>, the reference maximum of that channel is
  positive and \<open>(col3 y, col4 y) = (r, c)\<close> is a point of the 321 by 321 grid, element
  \<open>[a, b]\<close> of the written channel is 1 exactly when the point \<open>(b + 1, a + 1)\<close>, which
  is what \<^verbatim>\<open>allrc\<close> lists at the flat index \<open>a * 321 + b\<close>, lies at Euclidean distance
  less than \<open>gaussian_size * sqrt 2\<close> from \<open>(r, c)\<close>, and 0 otherwise.  The elements
  that are 1 are connected: each is linked to the element \<open>[c - 1, r - 1]\<close>.
\<close>

lemma single_blob_disc:
  assumes "py_int (take 4 (drop 1 (basename file_path))) = Inr image_id"
    and "bind_r (str_index (basename file_path) 6) py_int = Inr bb_id"
    and "loadmat_data fs file_path = Inr inp"
    and "can_write fs save_path"
    and "i < dim2 inp"
    and "channel_positive inp i"
    and "select_rows keypoints image_id bb_id i = [y]"
    and "col3 y = real r" and "col4 y = real c"
    and "1 \<le> r" and "r \<le> 321" and "1 \<le> c" and "c \<le> 321"
  shows "\<exists>fs' v. gaussians keypoints file_path save_path fs = (Inr (), fs') \<and>
           files fs' save_path = Some (PklFile v) \<and>
           (\<forall>a<321. \<forall>b<321.
              allrc crop_size ! (a * 321 + b) = (real (b + 1), real (a + 1)) \<and>
              (v ! a ! b ! i = 1 \<longleftrightarrow>
                 sqrt ((real (b + 1) - col3 y)\<^sup>2 + (real (a + 1) - col4 y)\<^sup>2) < gaussian_size * sqrt 2) \<and>
              (v ! a ! b ! i = 0 \<or> v ! a ! b ! i = 1) \<and>
              (v ! a ! b ! i = 1 \<longrightarrow>
                 linked (\<lambda>a b. a < 321 \<and> b < 321 \<and> v ! a ! b ! i = 1) (c - 1, r - 1) (a, b)))"
proof -
  have ne: "channel_vals inp i \<noteq> []"
    using assms(6) by (auto simp: channel_positive_def np_max_def)
  then have dims: "0 < dim0 inp" "0 < dim1 inp" by (simp_all add: channel_vals_empty)
  define v where "v = tabulate3 crop_size crop_size (dim2 inp) (\<lambda>a b k.
        if channel_positive inp k \<and>
           list_ex (\<lambda>y. mask_px crop_size y a b = 1) (select_rows keypoints image_id bb_id k)
        then 1 else (0 :: 8 word))"
  have s: "synthesize crop_size keypoints image_id bb_id inp = Inr v"
    unfolding v_def by (rule synthesize_tab[OF crop_size_pos dims])
  have g: "gaussians keypoints file_path save_path fs =
      (Inr (), fs\<lparr>files := fun_upd (files fs) save_path (Some (PklFile v))\<rparr>)"
    unfolding gaussians_Inr_iff using assms(1-4) s by blast
  have c0: "c - 1 < 321" "r - 1 < 321" "col3 y = real (r - 1 + 1)" "col4 y = real (c - 1 + 1)"
    using assms(8-13) by simp_all
  have px: "v ! a ! b ! i = (if (real (b + 1) - col3 y)\<^sup>2 + (real (a + 1) - col4 y)\<^sup>2 < 5000 then 1 else 0)"
    if r: "a < 321" "b < 321" for a b
  proof -
    have "v ! a ! b ! i = (if mask_px 321 y a b = 1 then 1 else 0)"
      unfolding v_def using r assms(5,6,7) by (simp add: tabulate3_nth crop_size_def)
    also have "\<dots> = mask_px 321 y a b" using mask_px_01[OF r, of y] by auto
    also have "\<dots> = (if (real (b + 1) - col3 y)\<^sup>2 + (real (a + 1) - col4 y)\<^sup>2 < 5000 then 1 else 0)"
      by (rule mask_px_disc[OF r c0])
    finally show ?thesis .
  qed
  have on: "(a < 321 \<and> b < 321 \<and> v ! a ! b ! i = 1) \<longleftrightarrow>
      a < 321 \<and> b < 321 \<and> (real b - real (r - 1))\<^sup>2 + (real a - real (c - 1))\<^sup>2 < 5000" for a b
  proof (cases "a < 321 \<and> b < 321")
    case True
    have e: "real (b + 1) - col3 y = real b - real (r - 1)" "real (a + 1) - col4 y = real a - real (c - 1)"
      using assms(8-13) by (simp_all add: of_nat_diff)
    from True have "v ! a ! b ! i =
        (if (real (b + 1) - col3 y)\<^sup>2 + (real (a + 1) - col4 y)\<^sup>2 < 5000 then 1 else 0)"
      by (intro px) simp_all
    then have "v ! a ! b ! i =
        (if (real b - real (r - 1))\<^sup>2 + (real a - real (c - 1))\<^sup>2 < 5000 then 1 else 0)"
      unfolding e .
    then show ?thesis by simp
  next
    case False
    then show ?thesis by auto
  qed
  have goal: "allrc crop_size ! (a * 321 + b) = (real (b + 1), real (a + 1)) \<and>
      (v ! a ! b ! i = 1 \<longleftrightarrow>
         sqrt ((real (b + 1) - col3 y)\<^sup>2 + (real (a + 1) - col4 y)\<^sup>2) < gaussian_size * sqrt 2) \<and>
      (v ! a ! b ! i = 0 \<or> v ! a ! b ! i = 1) \<and>
      (v ! a ! b ! i = 1 \<longrightarrow>
         linked (\<lambda>a b. a < 321 \<and> b < 321 \<and> v ! a ! b ! i = 1) (c - 1, r - 1) (a, b))"
    if r: "a < 321" "b < 321" for a b
  proof (intro conjI impI)
    have "Suc a \<le> 321" using r by simp
    then have "Suc a * 321 \<le> 321 * 321" by (rule mult_le_mono1)
    then have k: "a * 321 + b < 321 * 321" using r by simp
    have "(a * 321 + b) mod 321 = b" "(a * 321 + b) div 321 = a" using r by simp_all
    then show "allrc crop_size ! (a * 321 + b) = (real (b + 1), real (a + 1))"
      using nth_allrc[of "a * 321 + b" 321] k by (simp add: crop_size_def)
    show "v ! a ! b ! i = 1 \<longleftrightarrow>
         sqrt ((real (b + 1) - col3 y)\<^sup>2 + (real (a + 1) - col4 y)\<^sup>2) < gaussian_size * sqrt 2"
      unfolding sqrt_radius px[OF r] by simp
    show "v ! a ! b ! i = 0 \<or> v ! a ! b ! i = 1" unfolding px[OF r] by simp
    assume "v ! a ! b ! i = 1"
    then have "a < 321 \<and> b < 321 \<and> v ! a ! b ! i = 1" using r by simp
    show "linked (\<lambda>a b. a < 321 \<and> b < 321 \<and> v ! a ! b ! i = 1) (c - 1, r - 1) (a, b)"
    proof (rule disc_linked[of "c - 1" 321 "r - 1" 5000 "\<lambda>a b. a < 321 \<and> b < 321 \<and> v ! a ! b ! i = 1" a b])
      show "c - 1 < 321" "r - 1 < 321" by (rule c0)+
      show "(0::real) < 5000" by simp
      show "(a' < 321 \<and> b' < 321 \<and> v ! a' ! b' ! i = 1) \<longleftrightarrow>
          a' < 321 \<and> b' < 321 \<and> (real b' - real (r - 1))\<^sup>2 + (real a' - real (c - 1))\<^sup>2 < 5000" for a' b'
        by (rule on)
      show "a < 321 \<and> b < 321 \<and> v ! a ! b ! i = 1" by fact
    qed
  qed
  have f: "files (fs\<lparr>files := fun_upd (files fs) save_path (Some (PklFile v))\<rparr>) save_path = Some (PklFile v)"
    by simp
  show ?thesis
    by (intro exI conjI allI impI, rule g, rule f) (use goal in blast)+
qed

text \<open>
  The element \<open>[r - 1, c - 1]\<close> of an array is its pixel in row \<open>r\<close> and column \<open>c\<close>.
  When \<open>r\<close> and \<open>c\<close> differ by 50 or more, that pixel of the keypoint itself is 0,
  and the centre of the disc, the element \<open>[c - 1, r - 1]\<close>, is 1.
\<close>

lemma single_blob_keypoint_pixel:
  assumes "py_int (take 4 (drop 1 (basename file_path))) = Inr image_id"
    and "bind_r (str_index (basename file_path) 6) py_int = Inr bb_id"
    and "loadmat_data fs file_path = Inr inp"
    and "can_write fs save_path"
    and "i < dim2 inp"
    and "channel_positive inp i"
    and "select_rows keypoints image_id bb_id i = [y]"
    and "col3 y = real r" and "col4 y = real c"
    and "1 \<le> r" and "r \<le> 321" and "1 \<le> c" and "c \<le> 321"
    and "r + 50 \<le> c \<or> c + 50 \<le> r"
  shows "\<exists>fs' v. gaussians keypoints file_path save_path fs = (Inr (), fs') \<and>
           files fs' save_path = Some (PklFile v) \<and>
           v ! (r - 1) ! (c - 1) ! i = 0 \<and> v ! (c - 1) ! (r - 1) ! i = 1"
proof -
  from single_blob_disc[OF assms(1-13)] obtain fs' v where
    g: "gaussians keypoints file_path save_path fs = (Inr (), fs')"
       "files fs' save_path = Some (PklFile v)" and
    px: "\<forall>a<321. \<forall>b<321.
              allrc crop_size ! (a * 321 + b) = (real (b + 1), real (a + 1)) \<and>
              (v ! a ! b ! i = 1 \<longleftrightarrow>
                 sqrt ((real (b + 1) - col3 y)\<^sup>2 + (real (a + 1) - col4 y)\<^sup>2) < gaussian_size * sqrt 2) \<and>
              (v ! a ! b ! i = 0 \<or> v ! a ! b ! i = 1) \<and>
              (v ! a ! b ! i = 1 \<longrightarrow>
                 linked (\<lambda>a b. a < 321 \<and> b < 321 \<and> v ! a ! b ! i = 1) (c - 1, r - 1) (a, b))"
    by blast
  have rc: "r - 1 < 321" "c - 1 < 321" using assms(10-13) by simp_all
  have e: "real (r - 1 + 1) = real r" "real (c - 1 + 1) = real c"
    using assms(10,12) by simp_all
  have far: "2500 \<le> (real c - real r)\<^sup>2"
  proof -
    have "50 \<le> \<bar>real c - real r\<bar>" using assms(14) by auto
    then have "\<bar>50 :: real\<bar> \<le> \<bar>real c - real r\<bar>" by simp
    then have "(50 :: real)\<^sup>2 \<le> (real c - real r)\<^sup>2" by (simp only: abs_le_square_iff)
    then show ?thesis by simp
  qed
  have sw: "(real r - real c)\<^sup>2 = (real c - real r)\<^sup>2" by (rule power2_commute)
  note p1 = px[rule_format, OF rc]
  note p2 = px[rule_format, OF rc(2) rc(1)]
  have "v ! (r - 1) ! (c - 1) ! i \<noteq> 1"
    using p1 far unfolding e assms(8,9) sqrt_radius sw by simp
  then have off: "v ! (r - 1) ! (c - 1) ! i = 0" using p1 by blast
  have on: "v ! (c - 1) ! (r - 1) ! i = 1"
    using p2 unfolding e assms(8,9) sqrt_radius by simp
  show ?thesis using g off on by blast
qed

text \<open>
  Claim C1 at the sample call.  The one row that matches channel 0 has the keypoint
  (row, column) \<open>= (100, 200)\<close>, a point of the grid, and the reference maximum of
  channel 0 is positive.  The claim has the pixels that are on form the disc around
  the keypoint, so the keypoint's own pixel, element \<open>[99, 199]\<close> of the written
  channel, would be 1.  The code writes 0 there and 1 at element \<open>[199, 99]\<close>, the
  pixel in row 200 and column 100: the disc it draws is centred at the keypoint with
  its coordinates exchanged.  (\<^verbatim>\<open>allrc\<close> lists the grid with the row coordinate
  running fastest, and line 15 reshapes the surface in C order, where the column index
  runs fastest.)
\<close>

theorem gaussians_blob_transposed:
  "select_rows sample_keypoints 1 1 0 = [\<lparr>col0 = 1, col1 = 1, col2 = 1, col3 = 100, col4 = 200\<rparr>] \<and>
   channel_positive sample_array 0 \<and>
   (\<exists>fs' v. gaussians sample_keypoints sample_path ''/out/l.pkl'' sample_fs = (Inr (), fs') \<and>
      files fs' ''/out/l.pkl'' = Some (PklFile v) \<and>
      v ! 99 ! 199 ! 0 = 0 \<and> v ! 199 ! 99 ! 0 = 1)"
proof -
  define y where "y = \<lparr>col0 = 1, col1 = 1, col2 = 1, col3 = 100, col4 = 200\<rparr>"
  have w: "can_write sample_fs ''/out/l.pkl''" by (simp add: sample_fs_def)
  have c: "0 < dim2 sample_array" by (simp add: sample_dims)
  have rows: "select_rows sample_keypoints 1 1 0 = [y]" unfolding y_def by (rule sample_rows(1))
  have k: "col3 y = real 100" "col4 y = real 200" "(1::nat) \<le> 100" "(100::nat) \<le> 321"
    "(1::nat) \<le> 200" "(200::nat) \<le> 321" "(100::nat) + 50 \<le> 200 \<or> (200::nat) + 50 \<le> 100"
    by (simp_all add: y_def)
  from single_blob_keypoint_pixel[OF sample_ids sample_load w c sample_channels(1) rows k]
  obtain fs' v where
    "gaussians sample_keypoints sample_path ''/out/l.pkl'' sample_fs = (Inr (), fs')"
    "files fs' ''/out/l.pkl'' = Some (PklFile v)"
    "v ! (100 - 1) ! (200 - 1) ! 0 = 0" "v ! (200 - 1) ! (100 - 1) ! 0 = 1"
    by blast
  then show ?thesis using sample_rows(1) sample_channels(1) by auto
qed

subsection \<open>The surface against the normal density\<close>

lemma gaussian_pdf2_closed:
  "gaussian_pdf2 (r0, c0) ((gaussian_size ^ 2, 0), (0, gaussian_size ^ 2)) (r, c) =
     exp (- ((r - r0)\<^sup>2 + (c - c0)\<^sup>2) / 5000) / (5000 * pi)"
proof -
  have q: "quad_form (pinv2 ((2500, 0), (0, 2500))) (r - r0, c - c0) = ((r - r0)\<^sup>2 + (c - c0)\<^sup>2) / 2500"
    by (simp add: quad_form_def pinv2_def det2_def power2_eq_square add_divide_distrib)
  have e: "- (D / 2500) / 2 = - D / 5000" for D :: real
    by argo
  have s: "sqrt 6250000 = 2500" by (rule real_sqrt_unique) simp_all
  have "gaussian_pdf2 (r0, c0) ((gaussian_size ^ 2, 0), (0, gaussian_size ^ 2)) (r, c) =
      exp (- (((r - r0)\<^sup>2 + (c - c0)\<^sup>2) / 2500) / 2) / (2 * pi * 2500)"
    by (simp add: gaussian_pdf2_def gaussian_size_def q det2_def s del: minus_add_distrib)
  then show ?thesis unfolding e by simp
qed

lemma sqrt_12500000_pi: "sqrt (12500000 * pi) = 2500 * sqrt (2 * pi)"
proof -
  have "sqrt (12500000 * pi) = sqrt (6250000 * (2 * pi))" by simp
  also have "\<dots> = sqrt 6250000 * sqrt (2 * pi)" by (rule real_sqrt_mult)
  also have "sqrt 6250000 = 2500" by (rule real_sqrt_unique) simp_all
  finally show ?thesis .
qed

text \<open>
  The surface of the source is the density times \<open>sqrt (2 * pi)\<close> everywhere: the
  exponent is that of the density, the constant \<open>1 / sqrt (det * 2 * pi)\<close> is not its
  normalising constant \<open>1 / (2 * pi * sqrt det)\<close>.
\<close>

lemma llkh_at_density:
  "llkh_at (r0, c0, gaussian_size ^ 2, gaussian_size ^ 2, 0) (r, c) =
     sqrt (2 * pi) * gaussian_pdf2 (r0, c0) ((gaussian_size ^ 2, 0), (0, gaussian_size ^ 2)) (r, c)"
proof -
  define s where "s = sqrt (2 * pi)"
  have s: "0 < s" "5000 * pi = 2500 * (s * s)" by (simp_all add: s_def)
  have "s * (E / (2500 * (s * s))) = E / (2500 * s)" for E :: real
    using s(1) by (simp add: field_simps)
  then have "sqrt (2 * pi) * (E / (5000 * pi)) = E / (2500 * sqrt (2 * pi))" for E :: real
    unfolding s(2) unfolding s_def .
  then show ?thesis unfolding llkh_at_closed gaussian_pdf2_closed sqrt_12500000_pi by (rule sym)
qed

text \<open>
  Claim C5 at the keypoint \<open>(100, 200)\<close>: the surface \<^verbatim>\<open>get_llkh\<close> returns for
  \<^verbatim>\<open>btemp = [100, 200, 50 ** 2, 50 ** 2, 0]\<close> has at the keypoint's own grid point
  (element \<open>[199, 99]\<close>) the value \<open>1 / sqrt (12500000 * pi)\<close>, where the density of
  the claim is \<open>1 / (5000 * pi)\<close>: the two differ by the factor \<open>sqrt (2 * pi)\<close>.
\<close>

theorem get_llkh_not_density:
  "\<exists>L. get_llkh (allrc crop_size) (100, 200, gaussian_size ^ 2, gaussian_size ^ 2, 0) crop_size = Inr L \<and>
     L ! 199 ! 99 = 1 / sqrt (12500000 * pi) \<and>
     gaussian_pdf2 (100, 200) ((gaussian_size ^ 2, 0), (0, gaussian_size ^ 2)) (100, 200) = 1 / (5000 * pi) \<and>
     L ! 199 ! 99 = sqrt (2 * pi) * gaussian_pdf2 (100, 200) ((gaussian_size ^ 2, 0), (0, gaussian_size ^ 2)) (100, 200) \<and>
     L ! 199 ! 99 \<noteq> gaussian_pdf2 (100, 200) ((gaussian_size ^ 2, 0), (0, gaussian_size ^ 2)) (100, 200)"
proof -
  define L where "L = map (\<lambda>a. map (\<lambda>b.
      llkh_at (100, 200, gaussian_size ^ 2, gaussian_size ^ 2, 0) (real (b + 1), real (a + 1))) [0..<crop_size]) [0..<crop_size]"
  have g: "get_llkh (allrc crop_size) (100, 200, gaussian_size ^ 2, gaussian_size ^ 2, 0) crop_size = Inr L"
    unfolding L_def by (rule get_llkh_grid)
  have "L ! 199 ! 99 = llkh_at (100, 200, gaussian_size ^ 2, gaussian_size ^ 2, 0) (100, 200)"
    by (simp add: L_def crop_size_def)
  then have v: "L ! 199 ! 99 = 1 / sqrt (12500000 * pi)" by (simp add: llkh_at_peak)
  have d: "gaussian_pdf2 (100, 200) ((gaussian_size ^ 2, 0), (0, gaussian_size ^ 2)) (100, 200) = 1 / (5000 * pi)"
    unfolding gaussian_pdf2_closed by simp
  have r: "L ! 199 ! 99 = sqrt (2 * pi) * gaussian_pdf2 (100, 200) ((gaussian_size ^ 2, 0), (0, gaussian_size ^ 2)) (100, 200)"
    using \<open>L ! 199 ! 99 = llkh_at (100, 200, gaussian_size ^ 2, gaussian_size ^ 2, 0) (100, 200)\<close>
    by (simp only: llkh_at_density)
  have "sqrt (12500000 * pi) \<noteq> 5000 * pi"
  proof
    assume "sqrt (12500000 * pi) = 5000 * pi"
    then have "(sqrt (12500000 * pi))\<^sup>2 = (5000 * pi)\<^sup>2" by simp
    then have "12500000 * pi = 25000000 * pi * pi" by (simp add: power2_eq_square)
    then have "pi = 1 / 2" using pi_gt_zero by simp
    then show False using pi_ge_two by simp
  qed
  then have n: "L ! 199 ! 99 \<noteq> gaussian_pdf2 (100, 200) ((gaussian_size ^ 2, 0), (0, gaussian_size ^ 2)) (100, 200)"
    unfolding v d by (simp add: field_simps)
  show ?thesis using g v d r n by blast
qed

section \<open>The weighted loss\<close>

lemma mapM_Inr:
  "(\<And>x. x \<in> set xs \<Longrightarrow> f x = Inr (g x)) \<Longrightarrow> mapM f xs = Inr (map g xs)"
  by (induction xs) simp_all

lemma py_sum_sum_list: "py_sum xs = sum_list xs"
proof -
  have "foldl (+) a xs = a + sum_list xs" for a :: real
    by (induction xs arbitrary: a) (simp_all add: add.assoc)
  then show ?thesis by (simp add: py_sum_def)
qed

lemma sum_list_upt: "sum_list (map f [0..<n]) = (\<Sum>i<n. f i)" for f :: "nat \<Rightarrow> real"
  by (simp add: interv_sum_list_conv_sum_set_nat lessThan_atLeast0)

lemma enumerate_nth: "enumerate 0 xs = map (\<lambda>i. (i, xs ! i)) [0..<length xs]"
  by (rule nth_equalityI) (simp_all add: nth_enumerate_eq)

lemma head_losses_Inr:
  assumes "length output \<le> length target"
  shows "head_losses criterion output target =
     Inr (map (\<lambda>idx. criterion (output ! idx) (target ! idx)) [0..<length output])"
  unfolding head_losses_def
  by (rule mapM_Inr) (use assms in \<open>simp add: py_index_def\<close>)

lemma task_losses_Inr:
  assumes "\<And>i. i < length task_data_pair \<Longrightarrow>
      length (model (fst (task_data_pair ! i)) i) \<le> length (snd (task_data_pair ! i))"
  shows "task_losses model criterion task_data_pair =
     Inr (map (\<lambda>i. \<Sum>idx<length (model (fst (task_data_pair ! i)) i).
                 criterion (model (fst (task_data_pair ! i)) i ! idx) (snd (task_data_pair ! i) ! idx))
            [0..<length task_data_pair])"
proof -
  have "mapM (\<lambda>(task_i, (inp, target)).
             bind_r (head_losses criterion (model inp task_i) target) (\<lambda>loss. Inr (py_sum loss)))
          (map (\<lambda>i. (i, task_data_pair ! i)) [0..<length task_data_pair]) =
      Inr (map (\<lambda>p. \<Sum>idx<length (model (fst (snd p)) (fst p)).
                 criterion (model (fst (snd p)) (fst p) ! idx) (snd (snd p) ! idx))
            (map (\<lambda>i. (i, task_data_pair ! i)) [0..<length task_data_pair]))"
  proof (rule mapM_Inr)
    fix p assume "p \<in> set (map (\<lambda>i. (i, task_data_pair ! i)) [0..<length task_data_pair])"
    then obtain i where i: "i < length task_data_pair" "p = (i, task_data_pair ! i)" by auto
    obtain inp target where t: "task_data_pair ! i = (inp, target)" by (cases "task_data_pair ! i")
    have "length (model inp i) \<le> length target" using assms[OF i(1)] t by simp
    from head_losses_Inr[OF this, of criterion]
    show "(case p of (task_i, inp, target) \<Rightarrow>
            bind_r (head_losses criterion (model inp task_i) target) (\<lambda>loss. Inr (py_sum loss))) =
          Inr (\<Sum>idx<length (model (fst (snd p)) (fst p)).
                 criterion (model (fst (snd p)) (fst p) ! idx) (snd (snd p) ! idx))"
      by (simp add: i(2) t py_sum_sum_list sum_list_upt)
  qed
  then show ?thesis
    unfolding task_losses_def enumerate_nth by (simp add: comp_def)
qed

text \<open>
  Claim C4.  With one entry of \<^verbatim>\<open>task_data_pair\<close> per task, a weight in \<^verbatim>\<open>sol\<close> for
  each task and a target for each head, the scalar on which \<^verbatim>\<open>backward\<close> is called
  (line 315) is the sum over the tasks of \<^verbatim>\<open>sol[i]\<close> times the loss of task \<open>i\<close>,
  which is the sum over the heads of the criterion on that step's outputs and
  targets.
\<close>

theorem train_combined_loss:
  assumes "length task_data_pair = n_tasks"
    and "n_tasks \<le> length sol"
    and "\<forall>i<n_tasks. length (model (fst (task_data_pair ! i)) i) \<le> length (snd (task_data_pair ! i))"
  shows "combined_loss model criterion n_tasks sol task_data_pair =
     Inr (\<Sum>i<n_tasks. sol ! i *
            (\<Sum>idx<length (model (fst (task_data_pair ! i)) i).
               criterion (model (fst (task_data_pair ! i)) i ! idx) (snd (task_data_pair ! i) ! idx)))"
proof -
  define tl where "tl = map (\<lambda>i. \<Sum>idx<length (model (fst (task_data_pair ! i)) i).
                 criterion (model (fst (task_data_pair ! i)) i ! idx) (snd (task_data_pair ! i) ! idx))
            [0..<length task_data_pair]"
  have t: "task_losses model criterion task_data_pair = Inr tl"
    unfolding tl_def by (rule task_losses_Inr) (use assms(1,3) in simp)
  have len: "length tl = n_tasks" by (simp add: tl_def assms(1))
  have w: "mapM (\<lambda>i. bind_r (py_index sol i) (\<lambda>s. bind_r (py_index tl i) (\<lambda>l. Inr (s * l)))) [0..<n_tasks] =
      Inr (map (\<lambda>i. sol ! i * tl ! i) [0..<n_tasks])"
    by (rule mapM_Inr) (use assms(2) len in \<open>simp add: py_index_def\<close>)
  have "combined_loss model criterion n_tasks sol task_data_pair = Inr (\<Sum>i<n_tasks. sol ! i * tl ! i)"
    unfolding combined_loss_def t bind_r_Inr w by (simp add: py_sum_sum_list sum_list_upt)
  also have "(\<Sum>i<n_tasks. sol ! i * tl ! i) = (\<Sum>i<n_tasks. sol ! i *
            (\<Sum>idx<length (model (fst (task_data_pair ! i)) i).
               criterion (model (fst (task_data_pair ! i)) i ! idx) (snd (task_data_pair ! i) ! idx)))"
    by (rule sum.cong) (simp_all add: tl_def assms(1))
  finally show ?thesis .
qed

text \<open>
  Two tasks with two heads each: the outputs of a task are its input plus the task
  index and twice its input, the criterion is the squared difference.
\<close>

theorem train_combined_loss_witness:
  "length [(1 :: real, [0, 1 :: real]), (2, [1, 1])] = 2 \<and> 2 \<le> length [1 / 4, 3 / 4 :: real] \<and>
   length ((\<lambda>inp t. [inp + real t, 2 * inp]) (fst ([(1 :: real, [0, 1 :: real]), (2, [1, 1])] ! 1)) 1)
     \<le> length (snd ([(1 :: real, [0, 1 :: real]), (2, [1, 1])] ! 1)) \<and>
   combined_loss (\<lambda>inp t. [inp + real t, 2 * inp]) (\<lambda>out tgt. (out - tgt)\<^sup>2) 2 [1 / 4, 3 / 4]
     [(1, [0, 1]), (2, [1, 1])] = Inr (1 / 4 * (1 + 1) + 3 / 4 * (4 + 9))"
proof -
  have h: "\<forall>i<2. length ((\<lambda>inp t. [inp + real t, 2 * inp]) (fst ([(1 :: real, [0, 1 :: real]), (2, [1, 1])] ! i)) i)
      \<le> length (snd ([(1 :: real, [0, 1 :: real]), (2, [1, 1])] ! i))"
    by (simp add: less_Suc_eq numeral_2_eq_2)
  have l: "length [(1 :: real, [0, 1 :: real]), (2, [1, 1])] = 2" "2 \<le> length [1 / 4, 3 / 4 :: real]"
    by simp_all
  define model where "model = (\<lambda>(inp :: real) (t :: nat). [inp + real t, 2 * inp])"
  define tdp where "tdp = [(1 :: real, [0, 1 :: real]), (2, [1, 1])]"
  have "combined_loss model (\<lambda>out tgt. (out - tgt)\<^sup>2) 2 [1 / 4, 3 / 4] tdp =
     Inr (\<Sum>i<2. [1 / 4, 3 / 4] ! i *
            (\<Sum>idx<length (model (fst (tdp ! i)) i).
               (model (fst (tdp ! i)) i ! idx - snd (tdp ! i) ! idx)\<^sup>2))"
    by (rule train_combined_loss) (use l h in \<open>simp_all add: model_def tdp_def\<close>)
  then have "combined_loss (\<lambda>inp t. [inp + real t, 2 * inp]) (\<lambda>out tgt. (out - tgt)\<^sup>2) 2 [1 / 4, 3 / 4]
     [(1, [0, 1]), (2, [1, 1])] = Inr (1 / 4 * (1 + 1) + 3 / 4 * (4 + 9))"
    by (simp add: model_def tdp_def lessThan_Suc numeral_2_eq_2)
  then show ?thesis using l h by simp
qed

section \<open>The weights of the solver\<close>

lemma min_norm_2_weight: "0 \<le> fst (min_norm_2 v11 v12 v22) \<and> fst (min_norm_2 v11 v12 v22) \<le> 1"
  by (simp add: min_norm_2_def Let_def)

lemma sum_list_delta:
  "sum_list (map (\<lambda>i. if i = t then (x :: real) else 0) [0..<k]) = (if t < k then x else 0)"
  by (induction k) simp_all

lemma simplex_one_hot: "t < k \<Longrightarrow> simplex k (one_hot k t)"
  by (simp add: simplex_def one_hot_def sum_list_delta list_all_iff)

lemma sum_list_two_deltas:
  assumes "i \<noteq> j"
  shows "sum_list (map (\<lambda>t. if t = i then (x :: real) else if t = j then y else 0) [0..<k]) =
     (if i < k then x else 0) + (if j < k then y else 0)"
  using assms by (induction k) auto

lemma simplex_split:
  assumes "i < k" "j < k" "i \<noteq> j" "0 \<le> w" "w \<le> 1"
  shows "simplex k (map (\<lambda>t. if t = i then w else if t = j then 1 - w else 0) [0..<k])"
  using assms by (simp add: simplex_def sum_list_two_deltas list_all_iff)

lemma sum_list_convex:
  "length xs = length ys \<Longrightarrow>
   sum_list (map2 (\<lambda>a b. c * a + d * b) xs ys) = c * sum_list xs + d * sum_list (ys :: real list)"
  by (induction xs ys rule: list_induct2) (simp_all add: algebra_simps)

lemma simplex_convex:
  assumes "simplex k w" "simplex k e" "0 \<le> c" "c \<le> 1"
  shows "simplex k (map2 (\<lambda>wk ek. c * wk + (1 - c) * ek) w e)"
proof -
  have len: "length w = k" "length e = k" using assms by (simp_all add: simplex_def)
  have nn: "\<And>x. x \<in> set w \<Longrightarrow> 0 \<le> x" "\<And>x. x \<in> set e \<Longrightarrow> 0 \<le> x"
    using assms by (simp_all add: simplex_def list_all_iff)
  have "0 \<le> c * a + (1 - c) * b" if "(a, b) \<in> set (zip w e)" for a b
  proof -
    have "0 \<le> a" "0 \<le> b" using that nn by (auto dest: set_zip_leftD set_zip_rightD)
    then show ?thesis using assms(3,4) by simp
  qed
  then have "list_all (\<lambda>x. 0 \<le> x) (map2 (\<lambda>wk ek. c * wk + (1 - c) * ek) w e)"
    by (auto simp: list_all_iff)
  moreover have "sum_list (map2 (\<lambda>wk ek. c * wk + (1 - c) * ek) w e) = 1"
    using sum_list_convex[of w e c "1 - c"] len assms(1,2) by (simp add: simplex_def)
  ultimately show ?thesis using len by (simp add: simplex_def)
qed

lemma argmin_from_less:
  "best < i \<Longrightarrow> argmin_from best bv i xs < i + length xs"
proof (induction xs arbitrary: best bv i)
  case Nil
  then show ?case by simp
next
  case (Cons x xs)
  have a: "argmin_from i x (i + 1) xs < i + 1 + length xs" by (rule Cons.IH) simp
  have b: "argmin_from best bv (i + 1) xs < i + 1 + length xs" by (rule Cons.IH) (use Cons.prems in simp)
  show ?case using a b by simp
qed

lemma argmin_less: "xs \<noteq> [] \<Longrightarrow> argmin xs < length xs"
  using argmin_from_less[of 0 1] by (cases xs) (auto simp: argmin_def)

lemma fw_iter_simplex:
  assumes "length G = k" "0 < k"
  shows "simplex k w \<Longrightarrow> simplex k (fw_iter n G w)"
proof (induction n arbitrary: w)
  case 0
  then show ?case by simp
next
  case (Suc n)
  define Gw where "Gw = map (\<lambda>row. dot_flat row w) G"
  define t where "t = argmin Gw"
  define c where "c = fst (min_norm_2 (dot_flat w Gw) (Gw ! t) (G ! t ! t))"
  have "Gw \<noteq> []" using assms by (auto simp: Gw_def)
  then have "t < length Gw" unfolding t_def by (rule argmin_less)
  then have t: "t < k" using assms by (simp add: Gw_def)
  have c: "0 \<le> c" "c \<le> 1" using min_norm_2_weight by (simp_all add: c_def)
  have len: "length w = k" using Suc.prems by (simp add: simplex_def)
  have "simplex k (map2 (\<lambda>wk ek. c * wk + (1 - c) * ek) w (one_hot k t))"
    by (rule simplex_convex[OF Suc.prems simplex_one_hot[OF t] c])
  from Suc.IH[OF this] Suc.prems show ?case
    by (simp add: Let_def Gw_def[symmetric] t_def[symmetric] c_def[symmetric] len)
qed

lemma set_pairs: "(i, j) \<in> set (pairs k) \<longleftrightarrow> i < j \<and> j < k"
proof
  assume "(i, j) \<in> set (pairs k)"
  then show "i < j \<and> j < k" by (auto simp: pairs_def)
next
  assume a: "i < j \<and> j < k"
  then have "i \<in> {0..<k}" "(i, j) \<in> Pair i ` {Suc i..<k}" by auto
  then show "(i, j) \<in> set (pairs k)" by (auto simp: pairs_def)
qed

lemma foldl_pick:
  "foldl (\<lambda>best q. if P q best then f q else best) b qs \<in> insert b (f ` set qs)"
  by (induction qs arbitrary: b) (simp, force)

lemma init_weights_simplex:
  assumes "2 \<le> k"
  shows "simplex k (init_weights G k)"
proof -
  have "(0, 1) \<in> set (pairs k)" using assms by (simp add: set_pairs)
  then obtain p ps where ps: "pairs k = p # ps" by (cases "pairs k") auto
  define best where "best = foldl (\<lambda>best q. if snd (fst (candidate G q)) < snd (fst best) then candidate G q else best)
                  (candidate G p) ps"
  have "best \<in> insert (candidate G p) (candidate G ` set ps)"
    unfolding best_def by (rule foldl_pick)
  then have "best \<in> candidate G ` set (pairs k)" by (simp add: ps)
  then obtain i j where ij: "(i, j) \<in> set (pairs k)" "best = candidate G (i, j)" by auto
  define w where "w = fst (min_norm_2 (G ! i ! i) (G ! i ! j) (G ! j ! j))"
  have b: "best = ((w, snd (min_norm_2 (G ! i ! i) (G ! i ! j) (G ! j ! j))), i, j)"
    by (simp add: ij(2) candidate_def w_def)
  have "i < k" "j < k" "i \<noteq> j" using ij(1) by (auto simp: set_pairs)
  moreover have "0 \<le> w" "w \<le> 1" using min_norm_2_weight by (simp_all add: w_def)
  ultimately have "simplex k (map (\<lambda>t. if t = i then w else if t = j then 1 - w else 0) [0..<k])"
    by (rule simplex_split)
  then show ?thesis
    by (simp add: init_weights_def ps best_def[symmetric] b)
qed

text \<open>
  Claim C3.  For a non-empty gradient list that satisfies the invariant of its data
  model (matching shapes across the tasks), \<^verbatim>\<open>find_min_norm_element\<close> returns a pair
  of weights and Gram values; there is one weight per task, every weight is
  non-negative, and the weights sum to 1 (exactly, in real arithmetic).
\<close>

theorem find_min_norm_element_simplex:
  assumes "gs \<noteq> []" and "shapes_match gs"
  shows "\<exists>w G. find_min_norm_element gs = Inr (w, G) \<and>
           length w = length gs \<and> list_all (\<lambda>x. 0 \<le> x) w \<and> sum_list w = 1"
proof (cases "length gs \<le> 1")
  case True
  then have "length gs = 1" using assms(1) by (cases gs) auto
  then have "simplex (length gs) (one_hot (length gs) 0)" by (simp add: simplex_one_hot)
  then show ?thesis using True assms(2) by (simp add: find_min_norm_element_def simplex_def)
next
  case False
  then have k: "2 \<le> length gs" "0 < length gs" by arith+
  have "length (gram gs) = length gs" by (simp add: gram_def)
  from fw_iter_simplex[OF this k(2) init_weights_simplex[OF k(1)], of max_iter "gram gs"]
  have "simplex (length gs) (fw_iter max_iter (gram gs) (init_weights (gram gs) (length gs)))" .
  then show ?thesis using False assms(2)
    by (simp add: find_min_norm_element_def simplex_def Let_def)
qed

text \<open>
  Two tasks with the orthogonal gradients \<open>(1, 0)\<close> and \<open>(0, 1)\<close>: the weights are
  the equal split.
\<close>

theorem find_min_norm_element_simplex_witness:
  "[[\<lparr>dims = [2], elems = [1, 0]\<rparr>], [\<lparr>dims = [2], elems = [0, 1]\<rparr>]] \<noteq> [] \<and>
   shapes_match [[\<lparr>dims = [2], elems = [1, 0]\<rparr>], [\<lparr>dims = [2], elems = [0, 1]\<rparr>]] \<and>
   (\<exists>w G. find_min_norm_element [[\<lparr>dims = [2], elems = [1, 0]\<rparr>], [\<lparr>dims = [2], elems = [0, 1]\<rparr>]] = Inr (w, G) \<and>
      length w = 2 \<and> list_all (\<lambda>x. 0 \<le> x) w \<and> sum_list w = 1)"
proof -
  have s: "shapes_match [[\<lparr>dims = [2], elems = [1, 0]\<rparr>], [\<lparr>dims = [2], elems = [0, 1]\<rparr>]]"
    by (simp add: shapes_match_def)
  have n: "[[\<lparr>dims = [2], elems = [1, 0]\<rparr>], [\<lparr>dims = [2], elems = [0, 1 :: real]\<rparr>]] \<noteq> []" by simp
  from find_min_norm_element_simplex[OF n s] obtain w G where
    r: "find_min_norm_element [[\<lparr>dims = [2], elems = [1, 0]\<rparr>], [\<lparr>dims = [2], elems = [0, 1]\<rparr>]] = Inr (w, G)"
       "length w = length [[\<lparr>dims = [2], elems = [1, 0]\<rparr>], [\<lparr>dims = [2], elems = [0, 1 :: real]\<rparr>]]"
       "list_all (\<lambda>x. 0 \<le> x) w" "sum_list w = 1"
    by blast
  from r(2) have "length w = 2" by simp
  then show ?thesis using n s r(1,3,4) by blast
qed

lemma find_min_norm_element_orthogonal:
  "find_min_norm_element [[\<lparr>dims = [2], elems = [1, 0]\<rparr>], [\<lparr>dims = [2], elems = [0, 1]\<rparr>]] =
     Inr ([1 / 2, 1 / 2], [[1, 0], [0, 1]])"
proof -
  have g: "gram [[\<lparr>dims = [2], elems = [1, 0]\<rparr>], [\<lparr>dims = [2], elems = [0, 1]\<rparr>]] = [[1, 0], [0, 1]]"
    by (simp add: gram_def dot_task_def dot_flat_def upt_conv_Cons)
  have p: "pairs 2 = [(0, 1)]" by (simp add: pairs_def upt_conv_Cons)
  have i: "init_weights [[1, 0], [0, 1]] 2 = [1 / 2, 1 / 2]"
    by (simp add: init_weights_def p candidate_def min_norm_2_def upt_conv_Cons Let_def)
  have m: "max_iter = Suc 249" by (simp add: max_iter_def)
  have f: "fw_iter max_iter [[1, 0], [0, 1]] [1 / 2, 1 / 2] = [1 / 2, 1 / 2]"
    unfolding m by (subst fw_iter.simps) (simp add: Let_def dot_flat_def argmin_def min_norm_2_def stop_crit_def)
  have i2: "init_weights [[1, 0], [0, 1]] (Suc (Suc 0)) = [1 / 2, 1 / 2]"
    using i by (simp add: numeral_2_eq_2)
  show ?thesis
    by (simp add: find_min_norm_element_def shapes_match_def g i2 f Let_def)
qed

end
